theory Spec2Isabelle
  imports Complex_Main "HOL-Library.Word"
begin

section \<open>The flow engine of \<open>code.cpp\<close>\<close>

text \<open>
  A shallow embedding of \<open>src/code.cpp\<close>: the classes \<open>Flow\<close>, \<open>System\<close>,
  \<open>CalculusStep\<close>, \<open>TextInputStep\<close> and \<open>CSVInputStep\<close>.

  Conventions.
  \<^item> A \<open>Step*\<close> is an address, a natural number; two steps are the same step when
    their addresses are equal.
  \<^item> \<open>size_t\<close> is a 64-bit word: \<open>--i\<close> and \<open>++i\<close> wrap around, and
    \<open>std::string::npos\<close> is the largest value.
  \<^item> An \<open>int\<close> has 32 bits. The counters of a flow are counted in the integers:
    no statement of \<open>Flow\<close> reads a counter to decide anything, so the count
    is what the \<open>int\<close> holds as long as it is at most \<open>INT_MAX\<close>. The \<open>++\<close> of an
    \<open>int\<close> that holds \<open>INT_MAX\<close> overflows, which C++ leaves undefined; the
    machine then stores \<open>int32\<close> of the count, its value modulo \<open>2^32\<close> read as
    two's complement. Where a claim is about the order of the stored values,
    the bound is stated.
  \<^item> Console output is not part of the state; only what a claim needs of it is
    returned as a value.
\<close>

subsection \<open>Data\<close>

type_synonym step_ptr = nat
type_synonym size_t = "64 word"

text \<open>
  The range of \<open>int\<close>, and the value a 32-bit \<open>int\<close> shows when the integer \<open>x\<close>
  is stored in it.
\<close>

definition INT_MAX :: int where
  "INT_MAX = 2147483647"

definition INT_MIN :: int where
  "INT_MIN = - 2147483648"

definition int32 :: "int \<Rightarrow> int" where
  "int32 x = (x + 2147483648) mod 4294967296 - 2147483648"

text \<open>\<open>struct StepAnalytics\<close> (lines 43-48) with its default member initialisers.\<close>

record StepAnalytics =
  startedCount :: int
  completedCount :: int
  skippedCount :: int
  errorCount :: int

definition StepAnalytics_default :: StepAnalytics where
  "StepAnalytics_default =
     \<lparr>startedCount = 0, completedCount = 0, skippedCount = 0, errorCount = 0\<rparr>"

text \<open>\<open>class Flow\<close> (lines 50-63). \<open>std::map<Step*, StepAnalytics>\<close> is a partial map.\<close>

record Flow =
  name :: string
  steps :: "step_ptr list"
  timestamp :: int
  analytics :: "step_ptr \<rightharpoonup> StepAnalytics"
  flowStartedCount :: int
  flowCompletedCount :: int
  totalErrorsAcrossFlows :: int

text \<open>The constructor \<open>Flow(const string& n)\<close> (line 65); \<open>t\<close> is what \<open>time(0)\<close> returns.\<close>

definition Flow_new :: "string \<Rightarrow> int \<Rightarrow> Flow" where
  "Flow_new n t =
     \<lparr>name = n, steps = [], timestamp = t, analytics = Map.empty,
      flowStartedCount = 0, flowCompletedCount = 0, totalErrorsAcrossFlows = 0\<rparr>"

definition getName :: "Flow \<Rightarrow> string" where
  "getName f = name f"

text \<open>
  \<open>analytics[p]\<close>: \<open>std::map::operator[]\<close> returns the entry of \<open>p\<close> and inserts a
  value-initialised one when there is none. \<open>entry\<close> is the value read,
  \<open>touch\<close> the map after the access.
\<close>

definition entry :: "(step_ptr \<rightharpoonup> StepAnalytics) \<Rightarrow> step_ptr \<Rightarrow> StepAnalytics" where
  "entry m p = (case m p of None \<Rightarrow> StepAnalytics_default | Some a \<Rightarrow> a)"

definition touch :: "(step_ptr \<rightharpoonup> StepAnalytics) \<Rightarrow> step_ptr \<Rightarrow> (step_ptr \<rightharpoonup> StepAnalytics)" where
  "touch m p = m(p \<mapsto> entry m p)"

text \<open>\<open>Flow::addStep\<close> (lines 71-74).\<close>

definition addStep :: "Flow \<Rightarrow> step_ptr \<Rightarrow> Flow" where
  "addStep f p = f\<lparr>steps := steps f @ [p], analytics := touch (analytics f) p\<rparr>"

text \<open>The four increments \<open>++analytics[steps[i]].xCount\<close> of \<open>Flow::run\<close>.\<close>

definition inc_started :: "Flow \<Rightarrow> step_ptr \<Rightarrow> Flow" where
  "inc_started f p =
     f\<lparr>analytics := (analytics f)(p \<mapsto>
        (entry (analytics f) p)\<lparr>startedCount := startedCount (entry (analytics f) p) + 1\<rparr>)\<rparr>"

definition inc_completed :: "Flow \<Rightarrow> step_ptr \<Rightarrow> Flow" where
  "inc_completed f p =
     f\<lparr>analytics := (analytics f)(p \<mapsto>
        (entry (analytics f) p)\<lparr>completedCount := completedCount (entry (analytics f) p) + 1\<rparr>)\<rparr>"

definition inc_skipped :: "Flow \<Rightarrow> step_ptr \<Rightarrow> Flow" where
  "inc_skipped f p =
     f\<lparr>analytics := (analytics f)(p \<mapsto>
        (entry (analytics f) p)\<lparr>skippedCount := skippedCount (entry (analytics f) p) + 1\<rparr>)\<rparr>"

definition inc_error :: "Flow \<Rightarrow> step_ptr \<Rightarrow> Flow" where
  "inc_error f p =
     f\<lparr>analytics := (analytics f)(p \<mapsto>
        (entry (analytics f) p)\<lparr>errorCount := errorCount (entry (analytics f) p) + 1\<rparr>)\<rparr>"

subsection \<open>The environment of a run\<close>

text \<open>
  \<open>Flow::run\<close> talks to two things outside the flow.

  The prompter: each of \<open>askUserToRunStep\<close>, \<open>askUserToSkipStep\<close> and
  \<open>askUserToCompleteStep\<close> (lines 76-95) reads one character with
  \<open>cin >> response\<close> and answers \<open>response == 'y' || response == 'Y'\<close>; the
  index it is given only appears in the question it prints. The script of the
  prompter is the list of the characters these reads have still to take, white
  space left out as \<open>>>\<close> skips it. What an \<open>execute\<close> reads for itself belongs
  to the step, not to this script.

  The steps: \<open>steps[i]->execute()\<close> is a virtual call that either returns or
  throws. The list of outcomes says what the successive calls of \<open>execute\<close> do.
  The exceptions are the two classes of the file (lines 18-40) and
  \<open>std::out_of_range\<close>, which \<open>std::string::substr\<close> throws; every \<open>throw\<close>
  inside an \<open>execute\<close> of the file throws a \<open>FlowExecutionException\<close>.

  Both lists are finite. A run that needs more than they hold has not returned
  within the script and yields \<open>None\<close>; this is how a run that never returns (the
  retry loop has no bound) appears in the model.
\<close>

datatype exception =
  FlowExecutionException string
| FlowNotFoundException string
| out_of_range

datatype exec_result = Completes | Throws exception

definition askUserToRunStep :: "size_t \<Rightarrow> string \<Rightarrow> (bool \<times> string) option" where
  "askUserToRunStep stepIndex inp =
     (case inp of [] \<Rightarrow> None
      | response # rest \<Rightarrow> Some (response = CHR ''y'' \<or> response = CHR ''Y'', rest))"

definition askUserToSkipStep :: "size_t \<Rightarrow> string \<Rightarrow> (bool \<times> string) option" where
  "askUserToSkipStep stepIndex inp =
     (case inp of [] \<Rightarrow> None
      | response # rest \<Rightarrow> Some (response = CHR ''y'' \<or> response = CHR ''Y'', rest))"

definition askUserToCompleteStep :: "size_t \<Rightarrow> string \<Rightarrow> (bool \<times> string) option" where
  "askUserToCompleteStep stepIndex inp =
     (case inp of [] \<Rightarrow> None
      | response # rest \<Rightarrow> Some (response = CHR ''y'' \<or> response = CHR ''Y'', rest))"

subsection \<open>\<open>Flow::run\<close> (lines 97-129)\<close>

text \<open>
  The retry loop \<open>while (!completed)\<close> (lines 105-118) for the step \<open>p = steps[i]\<close>.
  Each iteration takes the outcome of one call of \<open>execute\<close>: when the call
  returns, the prompter is asked whether the step is completed; when it throws
  a \<open>FlowExecutionException\<close>, the handler counts the error and the loop goes
  round again; any other exception is not caught and leaves \<open>run\<close> (\<open>Inl\<close>).
\<close>

fun retry_loop ::
  "Flow \<Rightarrow> size_t \<Rightarrow> step_ptr \<Rightarrow> string \<Rightarrow> exec_result list
     \<Rightarrow> (exception + Flow \<times> string \<times> exec_result list) option" where
  "retry_loop f i p inp [] = None"
| "retry_loop f i p inp (Completes # outs) =
     (case askUserToCompleteStep i inp of
        None \<Rightarrow> None
      | Some (completed, inp') \<Rightarrow>
          if completed then Some (Inr (inc_completed f p, inp', outs))
          else retry_loop f i p inp' outs)"
| "retry_loop f i p inp (Throws (FlowExecutionException e) # outs) =
     retry_loop (inc_error f p) i p inp outs"
| "retry_loop f i p inp (Throws ex # outs) = Some (Inl ex)"

text \<open>
  The body of the \<open>for\<close> loop (lines 101-125) at index \<open>i\<close>, which the loop
  condition has checked to be below \<open>steps.size()\<close>. It returns the flow, the
  value of \<open>i\<close> at the end of the body (before the loop's \<open>++i\<close>) and what is
  left of the two scripts.
\<close>

definition loop_body ::
  "Flow \<Rightarrow> size_t \<Rightarrow> string \<Rightarrow> exec_result list
     \<Rightarrow> (exception + Flow \<times> size_t \<times> string \<times> exec_result list) option" where
  "loop_body f i inp outs =
     (let p = steps f ! unat i;
          f1 = inc_started f p
      in case askUserToRunStep i inp of
           None \<Rightarrow> None
         | Some (run_it, inp1) \<Rightarrow>
             if run_it then
               (case retry_loop f1 i p inp1 outs of
                  None \<Rightarrow> None
                | Some (Inl ex) \<Rightarrow> Some (Inl ex)
                | Some (Inr (f2, inp2, outs2)) \<Rightarrow> Some (Inr (f2, i, inp2, outs2)))
             else
               (case askUserToSkipStep i inp1 of
                  None \<Rightarrow> None
                | Some (skip_it, inp2) \<Rightarrow>
                    if skip_it then Some (Inr (inc_skipped f1 p, i, inp2, outs))
                    else Some (Inr (f1, i - 1, inp2, outs))))"

lemma askUserToRunStep_simps [simp]:
  "askUserToRunStep i [] = None"
  "askUserToRunStep i (c # cs) = Some (c = CHR ''y'' \<or> c = CHR ''Y'', cs)"
  by (simp_all add: askUserToRunStep_def)

lemma askUserToSkipStep_simps [simp]:
  "askUserToSkipStep i [] = None"
  "askUserToSkipStep i (c # cs) = Some (c = CHR ''y'' \<or> c = CHR ''Y'', cs)"
  by (simp_all add: askUserToSkipStep_def)

lemma askUserToCompleteStep_simps [simp]:
  "askUserToCompleteStep i [] = None"
  "askUserToCompleteStep i (c # cs) = Some (c = CHR ''y'' \<or> c = CHR ''Y'', cs)"
  by (simp_all add: askUserToCompleteStep_def)

lemma retry_loop_length:
  "retry_loop f i p inp outs = Some (Inr (f', inp', outs')) \<Longrightarrow> length inp' \<le> length inp"
proof (induction f i p inp outs rule: retry_loop.induct)
  case (2 f i p inp outs)
  show ?case
  proof (cases inp)
    case Nil
    with 2 show ?thesis by simp
  next
    case (Cons c cs)
    show ?thesis
    proof (cases "c = CHR ''y'' \<or> c = CHR ''Y''")
      case True
      with 2 Cons show ?thesis by auto
    next
      case False
      with 2 Cons have "length inp' \<le> length cs" by auto
      with Cons show ?thesis by simp
    qed
  qed
qed simp_all

lemma loop_body_length:
  "loop_body f i inp outs = Some (Inr (f', i', inp', outs')) \<Longrightarrow> length inp' < length inp"
  by (cases inp; cases "tl inp")
     (auto simp: loop_body_def Let_def split: if_splits option.splits sum.splits
           dest: retry_loop_length)

text \<open>
  The loop \<open>for (size_t i = 0; i < steps.size(); ++i)\<close> from the index \<open>i\<close> on.
  A vector holds fewer than \<open>2^64\<close> elements, so \<open>i < steps.size()\<close> is the
  comparison of the two numbers.
\<close>

function for_loop ::
  "Flow \<Rightarrow> size_t \<Rightarrow> string \<Rightarrow> exec_result list
     \<Rightarrow> (exception + Flow \<times> string \<times> exec_result list) option" where
  "for_loop f i inp outs =
     (if unat i < length (steps f) then
        (case loop_body f i inp outs of
           None \<Rightarrow> None
         | Some (Inl ex) \<Rightarrow> Some (Inl ex)
         | Some (Inr (f', i', inp', outs')) \<Rightarrow> for_loop f' (i' + 1) inp' outs')
      else Some (Inr (f, inp, outs)))"
  by pat_completeness auto
termination
  by (relation "measure (\<lambda>(f, i, inp, outs). length inp)")
     (auto dest: loop_body_length)

declare for_loop.simps [simp del]

text \<open>
  \<open>Flow::run\<close>. \<open>Some (Inr (f', inp', outs'))\<close>: the call returned, leaving the flow
  \<open>f'\<close>; \<open>Some (Inl ex)\<close>: the exception \<open>ex\<close> left the call; \<open>None\<close>: the call
  has not returned within the script.
\<close>

definition run ::
  "Flow \<Rightarrow> string \<Rightarrow> exec_result list
     \<Rightarrow> (exception + Flow \<times> string \<times> exec_result list) option" where
  "run f inp outs =
     (case for_loop (f\<lparr>flowStartedCount := flowStartedCount f + 1\<rparr>) 0 inp outs of
        None \<Rightarrow> None
      | Some (Inl ex) \<Rightarrow> Some (Inl ex)
      | Some (Inr (f', inp', outs')) \<Rightarrow>
          Some (Inr (f'\<lparr>flowCompletedCount := flowCompletedCount f' + 1\<rparr>, inp', outs')))"

text \<open>
  The fields of a \<open>Flow\<close> are private: a flow is what the constructor builds and
  \<open>addStep\<close> and \<open>run\<close> then make of it. Only a call of \<open>run\<close> that returns
  hands the flow back; no \<open>execute\<close> of the file makes it end otherwise.
\<close>

inductive reachable :: "Flow \<Rightarrow> bool" where
  reachable_new: "reachable (Flow_new n t)"
| reachable_addStep: "reachable f \<Longrightarrow> reachable (addStep f p)"
| reachable_run:
    "reachable f \<Longrightarrow> run f inp outs = Some (Inr (f', inp', outs')) \<Longrightarrow> reachable f'"

text \<open>
  The last line of the report of \<open>Flow::printAnalytics\<close> (lines 147-153): the
  average, or \<open>None\<close> for \<open>N/A (No completed flows)\<close>. The quotient of the two
  \<open>double\<close>s is the quotient of the reals wherever it is exact.
\<close>

definition avgErrorsPerFlow :: "Flow \<Rightarrow> real option" where
  "avgErrorsPerFlow f =
     (if flowCompletedCount f > 0
      then Some (real_of_int (totalErrorsAcrossFlows f) / real_of_int (flowCompletedCount f))
      else None)"

subsection \<open>\<open>class System\<close> (lines 402-443)\<close>

text \<open>
  \<open>vector<Flow*> flows\<close>: each pointer is to a flow of its own, made by
  \<open>createFlow\<close>; the vector is the list of these flows.
\<close>

record System =
  flows :: "Flow list"

definition createFlow :: "System \<Rightarrow> string \<Rightarrow> int \<Rightarrow> System" where
  "createFlow sys n t = sys\<lparr>flows := flows sys @ [Flow_new n t]\<rparr>"

text \<open>
  \<open>std::find_if\<close> over the whole vector: the position of the first element that
  satisfies the predicate, or the length of the vector for \<open>end()\<close>.
\<close>

fun find_if :: "('a \<Rightarrow> bool) \<Rightarrow> 'a list \<Rightarrow> nat" where
  "find_if P [] = 0"
| "find_if P (x # xs) = (if P x then 0 else Suc (find_if P xs))"

text \<open>\<open>vector::erase(it)\<close> for an iterator \<open>it\<close> before \<open>end()\<close>.\<close>

definition erase :: "'a list \<Rightarrow> nat \<Rightarrow> 'a list" where
  "erase xs it = take it xs @ drop (Suc it) xs"

text \<open>
  \<open>System::deleteFlow\<close> (lines 411-424): the result of the call (\<open>Inl\<close> the
  exception thrown) and the system after it.
\<close>

definition deleteFlow :: "System \<Rightarrow> string \<Rightarrow> (exception + unit) \<times> System" where
  "deleteFlow sys flowName =
     (let it = find_if (\<lambda>flow. getName flow = flowName) (flows sys)
      in if it \<noteq> length (flows sys)
         then (Inr (), sys\<lparr>flows := erase (flows sys) it\<rparr>)
         else (Inl (FlowNotFoundException flowName), sys))"

text \<open>The names \<open>System::printFlows\<close> (lines 427-432) lists, in its order.\<close>

definition printFlows :: "System \<Rightarrow> string list" where
  "printFlows sys = map getName (flows sys)"

subsection \<open>The entries of the loop body\<close>

text \<open>
  The states in which the body of the \<open>for\<close> loop is entered, in order: the
  flow, the index \<open>i\<close> and the two scripts at each entry. \<open>run_visits\<close> lists
  them for a call of \<open>run\<close>.
\<close>

function visits ::
  "Flow \<Rightarrow> size_t \<Rightarrow> string \<Rightarrow> exec_result list
     \<Rightarrow> (Flow \<times> size_t \<times> string \<times> exec_result list) list" where
  "visits f i inp outs =
     (if unat i < length (steps f) then
        (f, i, inp, outs) #
        (case loop_body f i inp outs of
           Some (Inr (f', i', inp', outs')) \<Rightarrow> visits f' (i' + 1) inp' outs'
         | _ \<Rightarrow> [])
      else [])"
  by pat_completeness auto
termination
  by (relation "measure (\<lambda>(f, i, inp, outs). length inp)")
     (auto dest: loop_body_length)

declare visits.simps [simp del]

definition run_visits ::
  "Flow \<Rightarrow> string \<Rightarrow> exec_result list \<Rightarrow> (Flow \<times> size_t \<times> string \<times> exec_result list) list" where
  "run_visits f inp outs = visits (f\<lparr>flowStartedCount := flowStartedCount f + 1\<rparr>) 0 inp outs"

subsection \<open>Notions used in the proofs\<close>

text \<open>
  \<open>set_entry\<close> replaces the entry of one step. \<open>counts_step\<close> relates the
  counters of a step before and after a part of a run: none has decreased, and
  \<open>completedCount\<close> has grown by no more than \<open>startedCount\<close>. \<open>evolves\<close> says
  that only the map of entries differs, that its keys have grown and only by
  steps of the flow, and that every entry is related by \<open>counts_step\<close>.
  \<open>flow_inv\<close> is the invariant of the flows the program builds. \<open>demo\<close> is a flow
  of two steps, at the addresses 1 and 2.
\<close>

definition set_entry :: "Flow \<Rightarrow> step_ptr \<Rightarrow> StepAnalytics \<Rightarrow> Flow" where
  "set_entry f p a = f\<lparr>analytics := (analytics f)(p \<mapsto> a)\<rparr>"

definition counts_step :: "StepAnalytics \<Rightarrow> StepAnalytics \<Rightarrow> bool" where
  "counts_step a b \<longleftrightarrow>
     startedCount a \<le> startedCount b \<and> completedCount a \<le> completedCount b \<and>
     skippedCount a \<le> skippedCount b \<and> errorCount a \<le> errorCount b \<and>
     completedCount b - completedCount a \<le> startedCount b - startedCount a"

definition evolves :: "Flow \<Rightarrow> Flow \<Rightarrow> bool" where
  "evolves f f' \<longleftrightarrow>
     (\<exists>m. f' = f\<lparr>analytics := m\<rparr>) \<and>
     dom (analytics f) \<subseteq> dom (analytics f') \<and>
     dom (analytics f') \<subseteq> dom (analytics f) \<union> set (steps f) \<and>
     (\<forall>q. counts_step (entry (analytics f) q) (entry (analytics f') q))"

definition flow_inv :: "Flow \<Rightarrow> bool" where
  "flow_inv f \<longleftrightarrow>
     dom (analytics f) = set (steps f) \<and> totalErrorsAcrossFlows f = 0 \<and>
     0 \<le> flowCompletedCount f \<and> flowCompletedCount f \<le> flowStartedCount f \<and>
     (\<forall>q. 0 \<le> completedCount (entry (analytics f) q) \<and>
          completedCount (entry (analytics f) q) \<le> startedCount (entry (analytics f) q) \<and>
          0 \<le> skippedCount (entry (analytics f) q) \<and> 0 \<le> errorCount (entry (analytics f) q))"

definition demo :: Flow where
  "demo = addStep (addStep (Flow_new ''demo'' 0) 1) 2"

text \<open>A system of two flows, and a flow of one step at the address 1.\<close>

definition registry :: System where
  "registry = createFlow (createFlow \<lparr>flows = []\<rparr> ''first'' 10) ''second'' 20"

definition single :: Flow where
  "single = addStep (Flow_new ''single'' 0) 1"

subsection \<open>\<open>CalculusStep<int>\<close> (lines 328-371)\<close>

text \<open>
  The template is used at \<open>T = int\<close> (line 482). A value is an integer that is
  \<open>in_int\<close>. An operation whose result is not, such as \<open>2147483647 + 1\<close> or
  \<open>INT_MIN / -1\<close>, overflows: C++ leaves it undefined (the program may print a
  wrapped value, or be killed by the division), and the model has no result
  there, \<open>None\<close>. \<open>/\<close> on \<open>int\<close> truncates towards zero.
\<close>

definition in_int :: "int \<Rightarrow> bool" where
  "in_int x \<longleftrightarrow> INT_MIN \<le> x \<and> x \<le> INT_MAX"

definition cpp_div :: "int \<Rightarrow> int \<Rightarrow> int" where
  "cpp_div a b = sgn a * sgn b * (\<bar>a\<bar> div \<bar>b\<bar>)"

text \<open>
  What \<open>CalculusStep::execute\<close> prints: the result on \<open>cout\<close>, or one of its three
  error lines on \<open>cerr\<close>.
\<close>

datatype calculus_output =
  CalculusResult int
| InvalidConfiguration
| DivisionByZero
| UnsupportedOperation

text \<open>
  The loop \<open>for (int i = 1; i < steps && i < inputValues.size(); ++i)\<close> (lines
  345-367) from the index \<open>i\<close> on, with the current \<open>result\<close>; \<open>s\<close> is the field
  \<open>steps\<close>. Each of the two error branches returns from \<open>execute\<close>. \<open>min\<close> and
  \<open>max\<close> of two values are values; \<open>+=\<close>, \<open>-=\<close>, \<open>*=\<close> and \<open>/=\<close> can overflow.
\<close>

function calculus_loop ::
  "int \<Rightarrow> int list \<Rightarrow> string \<Rightarrow> nat \<Rightarrow> int \<Rightarrow> calculus_output option" where
  "calculus_loop s inputValues operation i result =
     (if int i < s \<and> i < length inputValues then
        if operation = ''+'' then
          (if in_int (result + inputValues ! i)
           then calculus_loop s inputValues operation (i + 1) (result + inputValues ! i)
           else None)
        else if operation = ''-'' then
          (if in_int (result - inputValues ! i)
           then calculus_loop s inputValues operation (i + 1) (result - inputValues ! i)
           else None)
        else if operation = ''*'' then
          (if in_int (result * inputValues ! i)
           then calculus_loop s inputValues operation (i + 1) (result * inputValues ! i)
           else None)
        else if operation = ''/'' then
          (if inputValues ! i \<noteq> 0 then
             (if in_int (cpp_div result (inputValues ! i))
              then calculus_loop s inputValues operation (i + 1) (cpp_div result (inputValues ! i))
              else None)
           else Some DivisionByZero)
        else if operation = ''min'' then
          calculus_loop s inputValues operation (i + 1) (min result (inputValues ! i))
        else if operation = ''max'' then
          calculus_loop s inputValues operation (i + 1) (max result (inputValues ! i))
        else Some UnsupportedOperation
      else Some (CalculusResult result))"
  by pat_completeness auto
termination
  by (relation "measure (\<lambda>(s, inputValues, operation, i, result). length inputValues - i)") auto

declare calculus_loop.simps [simp del]

text \<open>
  \<open>CalculusStep::execute\<close>: how the call ends, and what it prints; \<open>None\<close> when
  an operation of the loop overflows. Every path ends in a \<open>return\<close> or at the
  end of the body; there is no \<open>throw\<close>.
\<close>

definition CalculusStep_execute ::
  "int \<Rightarrow> int list \<Rightarrow> string \<Rightarrow> (exec_result \<times> calculus_output) option" where
  "CalculusStep_execute s inputValues operation =
     (if s \<le> 0 \<or> length inputValues < 2 then Some (Completes, InvalidConfiguration)
      else (case calculus_loop s inputValues operation 1 (inputValues ! 0) of
              None \<Rightarrow> None
            | Some out \<Rightarrow> Some (Completes, out)))"

text \<open>
  Modelled on the words of the specification, to compare with the code: the
  six operations on the integers, \<open>/\<close> being the quotient of the two numbers
  with its fractional part discarded; the left fold that starts from the first
  element and applies the operation across the next
  \<open>min (steps - 1) (count - 1)\<close> elements; and the results the fold passes
  through.
\<close>

definition spec_quotient :: "int \<Rightarrow> int \<Rightarrow> int" where
  "spec_quotient a b =
     (if 0 \<le> real_of_int a / real_of_int b
      then \<lfloor>real_of_int a / real_of_int b\<rfloor>
      else \<lceil>real_of_int a / real_of_int b\<rceil>)"

definition spec_operation :: "string \<Rightarrow> int \<Rightarrow> int \<Rightarrow> int" where
  "spec_operation operation a b =
     (if operation = ''+'' then a + b
      else if operation = ''-'' then a - b
      else if operation = ''*'' then a * b
      else if operation = ''/'' then spec_quotient a b
      else if operation = ''min'' then min a b
      else if operation = ''max'' then max a b
      else a)"

definition spec_folded :: "int \<Rightarrow> int list \<Rightarrow> int list" where
  "spec_folded s inputValues = take (min (nat (s - 1)) (length inputValues - 1)) (tl inputValues)"


fun spec_partials :: "(int \<Rightarrow> int \<Rightarrow> int) \<Rightarrow> int \<Rightarrow> int list \<Rightarrow> int list" where
  "spec_partials f a [] = []"
| "spec_partials f a (x # xs) = f a x # spec_partials f (f a x) xs"

definition supported :: "string \<Rightarrow> bool" where
  "supported operation \<longleftrightarrow> operation \<in> {''+'', ''-'', ''*'', ''/'', ''min'', ''max''}"

text \<open>
  Used in the proofs: the loop, told over the list of the elements it visits.
\<close>

fun fold_checked :: "string \<Rightarrow> int \<Rightarrow> int list \<Rightarrow> calculus_output option" where
  "fold_checked opn acc [] = Some (CalculusResult acc)"
| "fold_checked opn acc (x # xs) =
     (if \<not> supported opn then Some UnsupportedOperation
      else if opn = ''/'' \<and> x = 0 then Some DivisionByZero
      else if opn = ''min'' \<or> opn = ''max'' \<or> in_int (spec_operation opn acc x)
      then fold_checked opn (spec_operation opn acc x) xs
      else None)"

subsection \<open>\<open>TextInputStep\<close> and \<open>CSVInputStep\<close> (lines 191-243)\<close>

text \<open>
  \<open>std::string::npos\<close>, and \<open>find_last_of\<close> for a single character: the position
  of its last occurrence, or \<open>npos\<close>. A string is shorter than \<open>2^64\<close>.
\<close>

definition npos :: size_t where
  "npos = - 1"

fun last_index_of :: "char \<Rightarrow> string \<Rightarrow> nat option" where
  "last_index_of c [] = None"
| "last_index_of c (x # xs) =
     (case last_index_of c xs of
        Some k \<Rightarrow> Some (Suc k)
      | None \<Rightarrow> if x = c then Some 0 else None)"

definition find_last_of :: "string \<Rightarrow> char \<Rightarrow> size_t" where
  "find_last_of str c = (case last_index_of c str of None \<Rightarrow> npos | Some k \<Rightarrow> word_of_nat k)"

text \<open>\<open>substr(pos)\<close>: the rest of the string from \<open>pos\<close>; it throws when \<open>pos > size()\<close>.\<close>

definition substr :: "string \<Rightarrow> size_t \<Rightarrow> exception + string" where
  "substr str pos = (if unat pos > length str then Inl out_of_range else Inr (drop (unat pos) str))"

text \<open>
  What the two steps print: the text of a file or the text given, the content
  of a CSV file, or one of the three error lines.
\<close>

datatype input_output =
  TextInputFromFile string
| TextInput string
| CSVInput string
| UnableToOpenTextFile string
| UnableToOpenCSVFile string
| InvalidFileType

text \<open>
  \<open>TextInputStep::execute\<close> and \<open>CSVInputStep::execute\<close>: how the call ends and what
  it prints. \<open>files\<close> gives the content of each file that \<open>ifstream\<close> can open.
\<close>

definition TextInputStep_execute ::
  "(string \<rightharpoonup> string) \<Rightarrow> string \<Rightarrow> exec_result \<times> input_output option" where
  "TextInputStep_execute files textInput =
     (case substr textInput (find_last_of textInput CHR ''.'' + 1) of
        Inl ex \<Rightarrow> (Throws ex, None)
      | Inr ext \<Rightarrow>
          if ext = ''txt'' then
            (case files textInput of
               Some content \<Rightarrow> (Completes, Some (TextInputFromFile content))
             | None \<Rightarrow> (Throws (FlowExecutionException ''TextInputStep''),
                         Some (UnableToOpenTextFile textInput)))
          else (Completes, Some (TextInput textInput)))"

definition CSVInputStep_execute ::
  "(string \<rightharpoonup> string) \<Rightarrow> string \<Rightarrow> exec_result \<times> input_output option" where
  "CSVInputStep_execute files csvFilePath =
     (case substr csvFilePath (find_last_of csvFilePath CHR ''.'' + 1) of
        Inl ex \<Rightarrow> (Throws ex, None)
      | Inr ext \<Rightarrow>
          if ext = ''csv'' then
            (case files csvFilePath of
               Some content \<Rightarrow> (Completes, Some (CSVInput content))
             | None \<Rightarrow> (Throws (FlowExecutionException ''CSVInputStep''),
                         Some (UnableToOpenCSVFile csvFilePath)))
          else (Throws (FlowExecutionException ''CSVInputStep''), Some InvalidFileType))"

text \<open>
  Modelled on the words of the specification, to compare with the code: the
  extension of a path is literally \<open>.ext\<close> when the path ends with a dot
  followed by \<open>ext\<close>.
\<close>

definition spec_has_extension :: "string \<Rightarrow> string \<Rightarrow> bool" where
  "spec_has_extension path ext \<longleftrightarrow>
     length ext < length path \<and> drop (length path - Suc (length ext)) path = CHR ''.'' # ext"

text \<open>
  \<open>counted m\<close> is what \<open>single\<close> has become after one run in which its step is
  refused \<open>m\<close> times and then skipped; \<open>at_INT_MAX\<close> is the one whose
  \<open>startedCount\<close> is \<open>INT_MAX\<close>, and \<open>past_INT_MAX\<close> what the counting of the
  model makes of it in one more run. \<open>dup\<close> is a flow to which the same step has
  been added twice, \<open>dup_done\<close> the same flow after a run.
\<close>

definition counted :: "nat \<Rightarrow> Flow" where
  "counted m =
     \<lparr>name = ''single'', steps = [1], timestamp = 0,
      analytics = [1 \<mapsto> \<lparr>startedCount = int m + 1, completedCount = 0,
                            skippedCount = 1, errorCount = 0\<rparr>],
      flowStartedCount = 1, flowCompletedCount = 1, totalErrorsAcrossFlows = 0\<rparr>"

definition at_INT_MAX :: Flow where
  "at_INT_MAX = counted 2147483646"

definition past_INT_MAX :: Flow where
  "past_INT_MAX =
     \<lparr>name = ''single'', steps = [1], timestamp = 0,
      analytics = [1 \<mapsto> \<lparr>startedCount = 2147483648, completedCount = 0,
                            skippedCount = 2, errorCount = 0\<rparr>],
      flowStartedCount = 2, flowCompletedCount = 2, totalErrorsAcrossFlows = 0\<rparr>"

definition dup :: Flow where
  "dup = addStep (addStep (Flow_new ''dup'' 0) 1) 1"

definition dup_done :: Flow where
  "dup_done =
     \<lparr>name = ''dup'', steps = [1, 1], timestamp = 0,
      analytics = [1 \<mapsto> \<lparr>startedCount = 2, completedCount = 2,
                            skippedCount = 0, errorCount = 2\<rparr>],
      flowStartedCount = 1, flowCompletedCount = 1, totalErrorsAcrossFlows = 0\<rparr>"

section \<open>Properties\<close>

lemma entry_upd [simp]: "entry (m(p \<mapsto> a)) q = (if q = p then a else entry m q)"
  by (simp add: entry_def)

lemma set_entry_fields [simp]:
  "name (set_entry f p a) = name f"
  "steps (set_entry f p a) = steps f"
  "timestamp (set_entry f p a) = timestamp f"
  "flowStartedCount (set_entry f p a) = flowStartedCount f"
  "flowCompletedCount (set_entry f p a) = flowCompletedCount f"
  "totalErrorsAcrossFlows (set_entry f p a) = totalErrorsAcrossFlows f"
  "analytics (set_entry f p a) = (analytics f)(p \<mapsto> a)"
  by (simp_all add: set_entry_def)

lemma set_entry_twice [simp]: "set_entry (set_entry f p a) p b = set_entry f p b"
  by (simp add: set_entry_def)

lemma inc_as_set_entry:
  "inc_started f p = set_entry f p ((entry (analytics f) p)\<lparr>startedCount := startedCount (entry (analytics f) p) + 1\<rparr>)"
  "inc_completed f p = set_entry f p ((entry (analytics f) p)\<lparr>completedCount := completedCount (entry (analytics f) p) + 1\<rparr>)"
  "inc_skipped f p = set_entry f p ((entry (analytics f) p)\<lparr>skippedCount := skippedCount (entry (analytics f) p) + 1\<rparr>)"
  "inc_error f p = set_entry f p ((entry (analytics f) p)\<lparr>errorCount := errorCount (entry (analytics f) p) + 1\<rparr>)"
  by (simp_all add: inc_started_def inc_completed_def inc_skipped_def inc_error_def set_entry_def)

lemma retry_loop_effect:
  "retry_loop f i p inp outs = Some (Inr (f', inp', outs')) \<Longrightarrow>
   \<exists>k\<ge>0. f' = set_entry f p ((entry (analytics f) p)
      \<lparr>completedCount := completedCount (entry (analytics f) p) + 1,
       errorCount := errorCount (entry (analytics f) p) + k\<rparr>)"
proof (induction f i p inp outs rule: retry_loop.induct)
  case (2 f i p inp outs)
  show ?case
  proof (cases inp)
    case Nil
    with 2 show ?thesis by simp
  next
    case (Cons c cs)
    show ?thesis
    proof (cases "c = CHR ''y'' \<or> c = CHR ''Y''")
      case True
      with 2 Cons have "f' = inc_completed f p" by auto
      then show ?thesis
        by (intro exI [of _ 0]) (simp add: inc_as_set_entry)
    next
      case False
      with 2 Cons show ?thesis by auto
    qed
  qed
next
  case (3 f i p inp e outs)
  from 3 obtain k where k: "k \<ge> 0"
    "f' = set_entry (inc_error f p) p ((entry (analytics (inc_error f p)) p)
      \<lparr>completedCount := completedCount (entry (analytics (inc_error f p)) p) + 1,
       errorCount := errorCount (entry (analytics (inc_error f p)) p) + k\<rparr>)"
    by auto
  show ?case
    apply (rule exI [of _ "1 + k"])
    using k by (simp add: inc_as_set_entry add.assoc)
qed simp_all

lemma counts_step_refl [simp]: "counts_step a a"
  by (simp add: counts_step_def)

lemma counts_step_trans: "counts_step a b \<Longrightarrow> counts_step b c \<Longrightarrow> counts_step a c"
  by (auto simp: counts_step_def)

lemma evolves_refl [simp]: "evolves f f"
  by (auto simp: evolves_def intro: exI [of _ "analytics f"])

lemma evolves_steps: "evolves f f' \<Longrightarrow> steps f' = steps f"
  by (auto simp: evolves_def)

lemma evolves_trans: 
  assumes "evolves f g" and "evolves g h"
  shows "evolves f h"
proof -
  from assms obtain m1 m2 where g: "g = f\<lparr>analytics := m1\<rparr>" and h: "h = g\<lparr>analytics := m2\<rparr>"
    by (auto simp: evolves_def)
  then have "h = f\<lparr>analytics := m2\<rparr>" by simp
  moreover have "steps g = steps f" using g by simp
  moreover have "\<forall>q. counts_step (entry (analytics f) q) (entry (analytics h) q)"
    using assms by (auto simp: evolves_def intro: counts_step_trans)
  moreover have "dom (analytics f) \<subseteq> dom (analytics h)"
    using assms unfolding evolves_def by blast
  moreover have "dom (analytics h) \<subseteq> dom (analytics f) \<union> set (steps f)"
  proof -
    have "dom (analytics h) \<subseteq> dom (analytics g) \<union> set (steps g)"
      and "dom (analytics g) \<subseteq> dom (analytics f) \<union> set (steps f)"
      using assms by (simp_all add: evolves_def)
    then have "dom (analytics h) \<subseteq> dom (analytics g) \<union> set (steps f)"
      and "dom (analytics g) \<subseteq> dom (analytics f) \<union> set (steps f)"
      using \<open>steps g = steps f\<close> by simp_all
    then show ?thesis by (meson Un_iff subsetD subsetI)
  qed
  ultimately show ?thesis
    unfolding evolves_def by blast
qed

lemma evolves_set_entry:
  assumes "p \<in> set (steps f)" and "counts_step (entry (analytics f) p) a"
  shows "evolves f (set_entry f p a)"
  using assms by (auto simp: evolves_def set_entry_def)

lemma loop_body_effect:
  assumes "loop_body f i inp outs = Some (Inr (f', i', inp', outs'))"
  shows "\<exists>a. f' = set_entry f (steps f ! unat i) a \<and>
           counts_step (entry (analytics f) (steps f ! unat i)) a \<and>
           startedCount a = startedCount (entry (analytics f) (steps f ! unat i)) + 1 \<and>
           (i' = i \<and> completedCount a + skippedCount a =
                completedCount (entry (analytics f) (steps f ! unat i)) +
                skippedCount (entry (analytics f) (steps f ! unat i)) + 1
            \<or> i' = i - 1)"
proof (cases inp)
  case Nil
  with assms show ?thesis by (simp add: loop_body_def)
next
  case (Cons c cs)
  show ?thesis
  proof (cases "c = CHR ''y'' \<or> c = CHR ''Y''")
    case True
    with assms Cons obtain r1 r2 where
      r: "retry_loop (inc_started f (steps f ! unat i)) i (steps f ! unat i) cs outs = Some (Inr (f', r1, r2))"
      and i': "i' = i"
      by (auto simp: loop_body_def Let_def split: option.splits sum.splits)
    let ?p = "steps f ! unat i"
    let ?e = "entry (analytics f) ?p"
    obtain k where k: "k \<ge> 0" and "f' = set_entry (inc_started f ?p) ?p
        ((entry (analytics (inc_started f ?p)) ?p)
      \<lparr>completedCount := completedCount (entry (analytics (inc_started f ?p)) ?p) + 1,
       errorCount := errorCount (entry (analytics (inc_started f ?p)) ?p) + k\<rparr>)"
      using retry_loop_effect [OF r] by auto
    then have f': "f' = set_entry f ?p (?e\<lparr>startedCount := startedCount ?e + 1,
        completedCount := completedCount ?e + 1, errorCount := errorCount ?e + k\<rparr>)"
      by (simp add: inc_as_set_entry)
    show ?thesis
      by (rule exI [of _ "?e\<lparr>startedCount := startedCount ?e + 1,
        completedCount := completedCount ?e + 1, errorCount := errorCount ?e + k\<rparr>"])
         (use f' i' k in \<open>simp add: counts_step_def\<close>)
  next
    case False
    note no_run = this
    show ?thesis
    proof (cases cs)
      case Nil
      with assms Cons no_run show ?thesis by (auto simp: loop_body_def)
    next
      case (Cons c2 cs2)
      with assms \<open>inp = c # cs\<close> no_run show ?thesis
        by (auto simp: loop_body_def Let_def inc_as_set_entry counts_step_def split: if_splits)
    qed
  qed
qed

lemma for_loop_effect:
  "for_loop f i inp outs = Some (Inr (f', inp', outs')) \<Longrightarrow>
   evolves f f' \<and>
   (\<forall>j. unat i \<le> j \<and> j < length (steps f) \<longrightarrow>
      startedCount (entry (analytics f) (steps f ! j)) + 1
        \<le> startedCount (entry (analytics f') (steps f ! j)) \<and>
      completedCount (entry (analytics f) (steps f ! j)) + skippedCount (entry (analytics f) (steps f ! j)) + 1
        \<le> completedCount (entry (analytics f') (steps f ! j)) + skippedCount (entry (analytics f') (steps f ! j)))"
proof (induction f i inp outs rule: for_loop.induct)
  case (1 f i inp outs)
  show ?case
  proof (cases "unat i < length (steps f)")
    case False
    with "1.prems" show ?thesis by (simp add: for_loop.simps)
  next
    case True
    with "1.prems" obtain f1 i1 inp1 outs1 where
      body: "loop_body f i inp outs = Some (Inr (f1, i1, inp1, outs1))" and
      rest: "for_loop f1 (i1 + 1) inp1 outs1 = Some (Inr (f', inp', outs'))"
      by (subst (asm) for_loop.simps) (auto split: option.splits sum.splits)
    let ?p = "steps f ! unat i"
    from loop_body_effect [OF body] obtain a where
      a: "f1 = set_entry f ?p a" "counts_step (entry (analytics f) ?p) a"
         "startedCount a = startedCount (entry (analytics f) ?p) + 1"
         "i1 = i \<and> completedCount a + skippedCount a =
                completedCount (entry (analytics f) ?p) + skippedCount (entry (analytics f) ?p) + 1
          \<or> i1 = i - 1"
      by blast
    have p_in: "?p \<in> set (steps f)" using True by simp
    have ev1: "evolves f f1" using a p_in by (simp add: evolves_set_entry)
    have steps1: "steps f1 = steps f" using a by simp
    from "1.IH" [OF True body refl refl refl refl rest]
    have ev2: "evolves f1 f'" and
      vis: "\<forall>j. unat (i1 + 1) \<le> j \<and> j < length (steps f1) \<longrightarrow>
        startedCount (entry (analytics f1) (steps f1 ! j)) + 1
          \<le> startedCount (entry (analytics f') (steps f1 ! j)) \<and>
        completedCount (entry (analytics f1) (steps f1 ! j)) + skippedCount (entry (analytics f1) (steps f1 ! j)) + 1
          \<le> completedCount (entry (analytics f') (steps f1 ! j)) + skippedCount (entry (analytics f') (steps f1 ! j))"
      by blast+
    have ev: "evolves f f'" using ev1 ev2 by (rule evolves_trans)
    have mono1: "counts_step (entry (analytics f) q) (entry (analytics f1) q)" for q
      using ev1 by (simp add: evolves_def)
    have mono2: "counts_step (entry (analytics f1) q) (entry (analytics f') q)" for q
      using ev2 by (simp add: evolves_def)
    have "startedCount (entry (analytics f) (steps f ! j)) + 1
            \<le> startedCount (entry (analytics f') (steps f ! j)) \<and>
          completedCount (entry (analytics f) (steps f ! j)) + skippedCount (entry (analytics f) (steps f ! j)) + 1
            \<le> completedCount (entry (analytics f') (steps f ! j)) + skippedCount (entry (analytics f') (steps f ! j))"
      if j: "unat i \<le> j" "j < length (steps f)" for j
    proof (cases "unat (i1 + 1) \<le> j")
      case True
      with vis j steps1 have
        "startedCount (entry (analytics f1) (steps f ! j)) + 1
          \<le> startedCount (entry (analytics f') (steps f ! j)) \<and>
        completedCount (entry (analytics f1) (steps f ! j)) + skippedCount (entry (analytics f1) (steps f ! j)) + 1
          \<le> completedCount (entry (analytics f') (steps f ! j)) + skippedCount (entry (analytics f') (steps f ! j))"
        by simp
      with mono1 [of "steps f ! j"] show ?thesis
        by (simp add: counts_step_def)
    next
      case False
      have "i1 = i" using a(4) False j by auto
      moreover have "unat (i + 1) \<le> unat i + 1"
        by (simp add: unat_word_ariths)
      ultimately have "j = unat i" using False j by simp
      moreover have "entry (analytics f1) ?p = a" using a by simp
      ultimately show ?thesis
        using a \<open>i1 = i\<close> mono2 [of ?p] by (auto simp: counts_step_def)
    qed
    with ev show ?thesis by blast
  qed
qed

lemma retry_loop_cases [consumes 0, case_names no_outcome no_answer completed not_completed caught uncaught]:
  assumes "\<And>f inp. P f inp []"
    and "\<And>f outs. P f [] (Completes # outs)"
    and "\<And>f c cs outs. c = CHR ''y'' \<or> c = CHR ''Y'' \<Longrightarrow> P f (c # cs) (Completes # outs)"
    and "\<And>f c cs outs. \<not> (c = CHR ''y'' \<or> c = CHR ''Y'') \<Longrightarrow> P f cs outs
           \<Longrightarrow> P f (c # cs) (Completes # outs)"
    and "\<And>f inp e outs. P (inc_error f p) inp outs
           \<Longrightarrow> P f inp (Throws (FlowExecutionException e) # outs)"
    and "\<And>f inp ex outs. \<forall>e. ex \<noteq> FlowExecutionException e \<Longrightarrow> P f inp (Throws ex # outs)"
  shows "P f inp outs"
proof (induction outs arbitrary: f inp)
  case Nil
  show ?case by (rule assms(1))
next
  case (Cons r outs)
  show ?case
  proof (cases r)
    case Completes
    show ?thesis
    proof (cases inp)
      case Nil
      with Completes show ?thesis by (simp add: assms(2))
    next
      case (Cons c cs)
      with Completes Cons.IH show ?thesis
        by (cases "c = CHR ''y'' \<or> c = CHR ''Y''") (simp_all add: assms(3,4))
    qed
  next
    case (Throws ex)
    with Cons.IH show ?thesis
      by (cases ex) (simp_all add: assms(5,6))
  qed
qed

lemma retry_loop_uncaught [simp]:
  "\<forall>e. ex \<noteq> FlowExecutionException e \<Longrightarrow>
   retry_loop f i p inp (Throws ex # outs) = Some (Inl ex)"
  by (cases ex) simp_all

lemma retry_loop_propagates:
  "retry_loop f i p inp outs = Some (Inl ex) \<Longrightarrow>
   Throws ex \<in> set outs \<and> (\<forall>e. ex \<noteq> FlowExecutionException e)"
  by (induction f inp outs rule: retry_loop_cases [of _ p]) auto

lemma retry_loop_outs:
  "retry_loop f i p inp outs = Some (Inr (f', inp', outs')) \<Longrightarrow> set outs' \<subseteq> set outs"
  by (induction f inp outs rule: retry_loop_cases [of _ p]) auto

lemma loop_body_propagates:
  "loop_body f i inp outs = Some (Inl ex) \<Longrightarrow>
   Throws ex \<in> set outs \<and> (\<forall>e. ex \<noteq> FlowExecutionException e)"
  by (cases inp; cases "tl inp")
     (auto simp: loop_body_def Let_def split: if_splits option.splits sum.splits
           dest: retry_loop_propagates)

lemma loop_body_outs:
  "loop_body f i inp outs = Some (Inr (f', i', inp', outs')) \<Longrightarrow> set outs' \<subseteq> set outs"
  by (cases inp; cases "tl inp")
     (auto simp: loop_body_def Let_def split: if_splits option.splits sum.splits
           dest: retry_loop_outs)

lemma for_loop_propagates:
  "for_loop f i inp outs = Some (Inl ex) \<Longrightarrow>
   Throws ex \<in> set outs \<and> (\<forall>e. ex \<noteq> FlowExecutionException e)"
proof (induction f i inp outs rule: for_loop.induct)
  case (1 f i inp outs)
  from "1.prems" have inr: "unat i < length (steps f)"
    by (subst (asm) for_loop.simps) (auto split: if_splits)
  show ?case
  proof (cases "loop_body f i inp outs")
    case None
    with "1.prems" inr show ?thesis by (subst (asm) for_loop.simps) simp
  next
    case (Some r)
    show ?thesis
    proof (cases r)
      case (Inl ex')
      with Some "1.prems" inr have "ex' = ex" by (subst (asm) for_loop.simps) simp
      with Some Inl show ?thesis by (auto dest: loop_body_propagates)
    next
      case (Inr t)
      obtain f1 i1 inp1 outs1 where t: "t = (f1, i1, inp1, outs1)" by (cases t)
      with Some Inr "1.prems" inr have
        "for_loop f1 (i1 + 1) inp1 outs1 = Some (Inl ex)"
        by (subst (asm) for_loop.simps) simp
      with "1.IH" [OF inr _ _ refl refl refl] Some Inr t
      have "Throws ex \<in> set outs1 \<and> (\<forall>e. ex \<noteq> FlowExecutionException e)" by simp
      moreover have "set outs1 \<subseteq> set outs"
        using Some Inr t by (auto dest: loop_body_outs)
      ultimately show ?thesis by blast
    qed
  qed
qed

lemma run_propagates:
  "run f inp outs = Some (Inl ex) \<Longrightarrow>
   Throws ex \<in> set outs \<and> (\<forall>e. ex \<noteq> FlowExecutionException e)"
  by (auto simp: run_def split: option.splits sum.splits dest: for_loop_propagates)

lemma run_effect:
  assumes "run f inp outs = Some (Inr (f', inp', outs'))"
  shows "\<exists>g. for_loop (f\<lparr>flowStartedCount := flowStartedCount f + 1\<rparr>) 0 inp outs
              = Some (Inr (g, inp', outs')) \<and>
             evolves (f\<lparr>flowStartedCount := flowStartedCount f + 1\<rparr>) g \<and>
             f' = g\<lparr>flowCompletedCount := flowCompletedCount g + 1\<rparr>"
  using assms by (auto simp: run_def split: option.splits sum.splits dest: for_loop_effect)

lemma run_frame:
  assumes "run f inp outs = Some (Inr (f', inp', outs'))"
  shows "\<exists>m. f' = f\<lparr>analytics := m, flowStartedCount := flowStartedCount f + 1,
                     flowCompletedCount := flowCompletedCount f + 1\<rparr> \<and>
             dom (analytics f) \<subseteq> dom m \<and> dom m \<subseteq> dom (analytics f) \<union> set (steps f) \<and>
             (\<forall>q. counts_step (entry (analytics f) q) (entry m q))"
proof -
  from run_effect [OF assms] obtain g where
    g: "evolves (f\<lparr>flowStartedCount := flowStartedCount f + 1\<rparr>) g"
       "f' = g\<lparr>flowCompletedCount := flowCompletedCount g + 1\<rparr>"
    by blast
  from g(1) obtain m where
    m: "g = f\<lparr>flowStartedCount := flowStartedCount f + 1, analytics := m\<rparr>"
    unfolding evolves_def by auto
  have "analytics g = m" using m by simp
  with g(1) have "dom (analytics f) \<subseteq> dom m \<and> dom m \<subseteq> dom (analytics f) \<union> set (steps f) \<and>
             (\<forall>q. counts_step (entry (analytics f) q) (entry m q))"
    unfolding evolves_def by simp
  moreover have "f' = f\<lparr>analytics := m, flowStartedCount := flowStartedCount f + 1,
                     flowCompletedCount := flowCompletedCount f + 1\<rparr>"
    using g(2) m by simp
  ultimately show ?thesis by blast
qed

lemma run_visits_all:
  assumes "run f inp outs = Some (Inr (f', inp', outs'))" and "j < length (steps f)"
  shows "startedCount (entry (analytics f) (steps f ! j)) + 1
           \<le> startedCount (entry (analytics f') (steps f ! j)) \<and>
         completedCount (entry (analytics f) (steps f ! j)) + skippedCount (entry (analytics f) (steps f ! j)) + 1
           \<le> completedCount (entry (analytics f') (steps f ! j)) + skippedCount (entry (analytics f') (steps f ! j))"
proof -
  from run_effect [OF assms(1)] obtain g where
    g: "for_loop (f\<lparr>flowStartedCount := flowStartedCount f + 1\<rparr>) 0 inp outs
              = Some (Inr (g, inp', outs'))"
       "f' = g\<lparr>flowCompletedCount := flowCompletedCount g + 1\<rparr>"
    by blast
  from for_loop_effect [OF g(1)] assms(2) g(2) show ?thesis by simp
qed

lemma entry_touch [simp]: "entry (touch m p) q = entry m q"
  by (simp add: touch_def entry_def)

lemma dom_touch [simp]: "dom (touch m p) = insert p (dom m)"
  by (simp add: touch_def)

lemma reachable_inv: "reachable f \<Longrightarrow> flow_inv f"
proof (induction rule: reachable.induct)
  case (reachable_new n t)
  show ?case
    by (simp add: flow_inv_def Flow_new_def entry_def StepAnalytics_default_def)
next
  case (reachable_addStep f p)
  then show ?case
    by (auto simp: flow_inv_def addStep_def)
next
  case (reachable_run f inp outs f' inp' outs')
  from run_frame [OF reachable_run.hyps(2)] obtain m where
    m: "f' = f\<lparr>analytics := m, flowStartedCount := flowStartedCount f + 1,
                     flowCompletedCount := flowCompletedCount f + 1\<rparr>"
       "dom (analytics f) \<subseteq> dom m" "dom m \<subseteq> dom (analytics f) \<union> set (steps f)"
       "\<forall>q. counts_step (entry (analytics f) q) (entry m q)"
    by blast
  have "dom m = set (steps f)"
    using m(2,3) reachable_run.IH by (auto simp: flow_inv_def)
  moreover have "0 \<le> completedCount (entry m q) \<and>
          completedCount (entry m q) \<le> startedCount (entry m q) \<and>
          0 \<le> skippedCount (entry m q) \<and> 0 \<le> errorCount (entry m q)" for q
  proof -
    have "counts_step (entry (analytics f) q) (entry m q)" using m(4) by blast
    moreover have "0 \<le> completedCount (entry (analytics f) q) \<and>
          completedCount (entry (analytics f) q) \<le> startedCount (entry (analytics f) q) \<and>
          0 \<le> skippedCount (entry (analytics f) q) \<and> 0 \<le> errorCount (entry (analytics f) q)"
      using reachable_run.IH by (simp add: flow_inv_def)
    ultimately show ?thesis by (simp add: counts_step_def)
  qed
  ultimately show ?case
    using reachable_run.IH m(1) by (simp add: flow_inv_def)
qed

lemma visits_evolves:
  "(g, j, inp1, outs1) \<in> set (visits f i inp outs) \<Longrightarrow>
   evolves f g \<and> unat j < length (steps f) \<and> for_loop g j inp1 outs1 = for_loop f i inp outs"
proof (induction f i inp outs rule: visits.induct)
  case (1 f i inp outs)
  from "1.prems" have inr: "unat i < length (steps f)"
    by (subst (asm) visits.simps) (auto split: if_splits)
  show ?case
  proof (cases "(g, j, inp1, outs1) = (f, i, inp, outs)")
    case True
    with inr show ?thesis by simp
  next
    case False
    have "visits f i inp outs = (f, i, inp, outs) #
        (case loop_body f i inp outs of
           Some (Inr (f', i', inp', outs')) \<Rightarrow> visits f' (i' + 1) inp' outs'
         | _ \<Rightarrow> [])"
      using inr by (subst visits.simps) simp
    with "1.prems" False have tail: "(g, j, inp1, outs1) \<in> set
        (case loop_body f i inp outs of
           Some (Inr (f', i', inp', outs')) \<Rightarrow> visits f' (i' + 1) inp' outs'
         | _ \<Rightarrow> [])"
      by (simp only: set_simps insert_iff) blast
    obtain f1 i1 inp2 outs2 where
      body: "loop_body f i inp outs = Some (Inr (f1, i1, inp2, outs2))" and
      mem: "(g, j, inp1, outs1) \<in> set (visits f1 (i1 + 1) inp2 outs2)"
    proof (cases "loop_body f i inp outs")
      case None
      with tail show ?thesis by simp
    next
      case (Some r)
      show ?thesis
      proof (cases r)
        case (Inl ex)
        with Some tail show ?thesis by simp
      next
        case (Inr t)
        obtain f1 i1 inp2 outs2 where "t = (f1, i1, inp2, outs2)" by (cases t)
        with Some Inr tail that show ?thesis by simp
      qed
    qed
    from "1.IH" [OF inr body refl refl refl refl mem]
    have ih: "evolves f1 g" "unat j < length (steps f1)"
      "for_loop g j inp1 outs1 = for_loop f1 (i1 + 1) inp2 outs2"
      by blast+
    from loop_body_effect [OF body] obtain a where
      a: "f1 = set_entry f (steps f ! unat i) a" "counts_step (entry (analytics f) (steps f ! unat i)) a"
      by blast
    have "evolves f f1" using a inr by (simp add: evolves_set_entry)
    from this ih(1) have "evolves f g" by (rule evolves_trans)
    moreover have "steps f1 = steps f" using a by simp
    moreover have "for_loop f i inp outs = for_loop f1 (i1 + 1) inp2 outs2"
      using inr body by (subst for_loop.simps) simp
    ultimately show ?thesis using ih by simp
  qed
qed

subsection \<open>The flow counters\<close>

text \<open>
  Claim C1. Whenever a call of \<open>run\<close> ends within the script, with the result
  \<open>r\<close>: no \<open>FlowExecutionException\<close> leaves the call, however many calls of
  \<open>execute\<close> throw one; when the calls of \<open>execute\<close> throw nothing else (as all
  of the file do), the call returns; and when it returns, \<open>flowStartedCount\<close>
  and \<open>flowCompletedCount\<close> have each grown by exactly 1. The first is
  incremented at the very start: it already has its final value, and
  \<open>flowCompletedCount\<close> still its old one, at every entry of the loop body. The
  second is incremented after every step has been visited and resolved: each
  position of the flow has had its \<open>startedCount\<close> incremented, and its
  \<open>completedCount\<close> or its \<open>skippedCount\<close>.
\<close>

theorem run_returns_and_counts:
  assumes "run f inp outs = Some r"
  shows "(\<forall>e. r \<noteq> Inl (FlowExecutionException e)) \<and>
    ((\<forall>ex. Throws ex \<in> set outs \<longrightarrow> (\<exists>e. ex = FlowExecutionException e))
       \<longrightarrow> (\<exists>f' inp' outs'. r = Inr (f', inp', outs'))) \<and>
    (\<forall>f' inp' outs'. r = Inr (f', inp', outs') \<longrightarrow>
       flowStartedCount f' = flowStartedCount f + 1 \<and>
       flowCompletedCount f' = flowCompletedCount f + 1 \<and>
       (\<forall>(g, j, inp1, outs1) \<in> set (run_visits f inp outs).
          flowStartedCount g = flowStartedCount f + 1 \<and>
          flowCompletedCount g = flowCompletedCount f) \<and>
       (\<forall>j<length (steps f).
          startedCount (entry (analytics f) (steps f ! j)) + 1
            \<le> startedCount (entry (analytics f') (steps f ! j)) \<and>
          completedCount (entry (analytics f) (steps f ! j))
            + skippedCount (entry (analytics f) (steps f ! j)) + 1
            \<le> completedCount (entry (analytics f') (steps f ! j))
              + skippedCount (entry (analytics f') (steps f ! j))))"
proof (intro conjI allI impI)
  fix e
  show "r \<noteq> Inl (FlowExecutionException e)"
    using assms run_propagates [of f inp outs "FlowExecutionException e"] by auto
next
  assume only: "\<forall>ex. Throws ex \<in> set outs \<longrightarrow> (\<exists>e. ex = FlowExecutionException e)"
  show "\<exists>f' inp' outs'. r = Inr (f', inp', outs')"
  proof (cases r)
    case (Inl ex)
    with assms run_propagates [of f inp outs ex] only show ?thesis by blast
  next
    case (Inr t)
    then show ?thesis by (cases t) auto
  qed
next
  fix f' inp' outs'
  assume r: "r = Inr (f', inp', outs')"
  with assms have ret: "run f inp outs = Some (Inr (f', inp', outs'))" by simp
  from run_frame [OF ret]
  show "flowStartedCount f' = flowStartedCount f + 1"
    and "flowCompletedCount f' = flowCompletedCount f + 1"
    by auto
  show "\<forall>(g, j, inp1, outs1) \<in> set (run_visits f inp outs).
          flowStartedCount g = flowStartedCount f + 1 \<and>
          flowCompletedCount g = flowCompletedCount f"
    by (auto simp: run_visits_def evolves_def dest!: visits_evolves)
  fix j
  assume "j < length (steps f)"
  with run_visits_all [OF ret]
  show "startedCount (entry (analytics f) (steps f ! j)) + 1
            \<le> startedCount (entry (analytics f') (steps f ! j))"
    and "completedCount (entry (analytics f) (steps f ! j))
            + skippedCount (entry (analytics f) (steps f ! j)) + 1
            \<le> completedCount (entry (analytics f') (steps f ! j))
              + skippedCount (entry (analytics f') (steps f ! j))"
    by blast+
qed

text \<open>The equations that evaluate a run of a concrete flow.\<close>

lemmas eval_defs = run_def for_loop.simps loop_body_def demo_def addStep_def Flow_new_def
     inc_started_def inc_completed_def inc_skipped_def inc_error_def touch_def entry_def StepAnalytics_default_def

text \<open>
  A run of \<open>demo\<close>: the first step runs and is completed; the second is first
  neither run nor skipped, then runs, throws once, succeeds and is completed.
\<close>

theorem run_returns_and_counts_witness:
  "\<exists>f'. run demo ''yynnyy'' [Completes, Throws (FlowExecutionException ''CSVInputStep''), Completes]
           = Some (Inr (f', [], [])) \<and>
        flowStartedCount f' = 1 \<and> flowCompletedCount f' = 1"
proof -
  have "\<exists>f'. run demo ''yynnyy'' [Completes, Throws (FlowExecutionException ''CSVInputStep''), Completes]
           = Some (Inr (f', [], []))"
    by (simp add: eval_defs)
  then obtain f' where
    r: "run demo ''yynnyy'' [Completes, Throws (FlowExecutionException ''CSVInputStep''), Completes]
           = Some (Inr (f', [], []))" ..
  have "flowStartedCount demo = 0" "flowCompletedCount demo = 0"
    by (simp_all add: demo_def addStep_def Flow_new_def)
  moreover from run_returns_and_counts [OF r]
  have "flowStartedCount f' = flowStartedCount demo + 1 \<and>
        flowCompletedCount f' = flowCompletedCount demo + 1"
    by blast
  ultimately show ?thesis using r by auto
qed

subsection \<open>The step counters\<close>

lemma addStep_entry: "entry (analytics (addStep f q)) p = entry (analytics f) p"
  by (simp add: addStep_def)

lemma reachable_demo: "reachable demo"
  unfolding demo_def by (intro reachable.intros)

text \<open>
  The stored value is the count while the count is in the range of \<open>int\<close>, and
  it follows the count through an overflow the way the machine's increment
  does.
\<close>

lemma int32_in_range: "INT_MIN \<le> x \<Longrightarrow> x \<le> INT_MAX \<Longrightarrow> int32 x = x"
  by (simp add: int32_def INT_MIN_def INT_MAX_def mod_pos_pos_trivial)

lemma int32_succ: "int32 (x + 1) = (if int32 x = INT_MAX then INT_MIN else int32 x + 1)"
proof -
  define y where "y = (x + 2147483648) mod 4294967296"
  have y: "0 \<le> y" "y < 4294967296" by (simp_all add: y_def)
  have "x + 1 + 2147483648 = (x + 2147483648) + 1" by simp
  then have "(x + 1 + 2147483648) mod 4294967296 = ((x + 2147483648) + 1) mod 4294967296"
    by (rule arg_cong)
  also have "\<dots> = (y + 1) mod 4294967296"
    unfolding y_def by (rule mod_add_left_eq [symmetric])
  finally have step: "int32 (x + 1) = (y + 1) mod 4294967296 - 2147483648"
    by (simp only: int32_def)
  have cur: "int32 x = y - 2147483648" by (simp only: int32_def y_def)
  show ?thesis
  proof (cases "y = 4294967295")
    case True
    then have "(y + 1) mod 4294967296 = 0" by simp
    with step cur True show ?thesis by (simp add: INT_MAX_def INT_MIN_def)
  next
    case False
    with y have "y + 1 < 4294967296" by simp
    with y have "(y + 1) mod 4294967296 = y + 1" by (simp add: mod_pos_pos_trivial)
    with step cur False show ?thesis by (simp add: INT_MAX_def)
  qed
qed

text \<open>
  A run can refuse a step any number of times before it skips it, so \<open>run\<close>
  alone takes the \<open>startedCount\<close> of a step to \<open>INT_MAX\<close>.
\<close>

lemma refusals_then_skip:
  "steps g = [p] \<Longrightarrow>
   for_loop g 0 (replicate m CHR ''n'' @ replicate m CHR ''n'' @ ''ny'') [] =
     Some (Inr (set_entry g p ((entry (analytics g) p)
        \<lparr>startedCount := startedCount (entry (analytics g) p) + int m + 1,
         skippedCount := skippedCount (entry (analytics g) p) + 1\<rparr>), [], []))"
proof (induction m arbitrary: g)
  case 0
  have body: "loop_body g 0 ''ny'' [] = Some (Inr (inc_skipped (inc_started g p) p, 0, [], []))"
    using 0 by (simp add: loop_body_def)
  have "for_loop g 0 ''ny'' [] = for_loop (inc_skipped (inc_started g p) p) 1 [] []"
    using 0 body by (subst for_loop.simps) simp
  also have "\<dots> = Some (Inr (inc_skipped (inc_started g p) p, [], []))"
    using 0 by (subst for_loop.simps) (simp add: inc_as_set_entry)
  finally show ?case by (simp add: inc_as_set_entry)
next
  case (Suc m)
  let ?rest = "replicate m CHR ''n'' @ replicate m CHR ''n'' @ ''ny''"
  have inp: "replicate (Suc m) CHR ''n'' @ replicate (Suc m) CHR ''n'' @ ''ny''
               = CHR ''n'' # CHR ''n'' # ?rest"
    by (simp add: replicate_app_Cons_same)
  have body: "loop_body g 0 (CHR ''n'' # CHR ''n'' # ?rest) []
                = Some (Inr (inc_started g p, 0 - 1, ?rest, []))"
    using Suc.prems by (simp add: loop_body_def)
  have "for_loop g 0 (CHR ''n'' # CHR ''n'' # ?rest) [] = for_loop (inc_started g p) 0 ?rest []"
    using Suc.prems body by (subst for_loop.simps) simp
  also have "\<dots> = Some (Inr (set_entry (inc_started g p) p ((entry (analytics (inc_started g p)) p)
        \<lparr>startedCount := startedCount (entry (analytics (inc_started g p)) p) + int m + 1,
         skippedCount := skippedCount (entry (analytics (inc_started g p)) p) + 1\<rparr>), [], []))"
    using Suc.prems by (intro Suc.IH) (simp add: inc_as_set_entry)
  finally show ?case
    unfolding inp by (simp add: inc_as_set_entry add.commute add.left_commute)
qed

lemma run_single_counted:
  "run single (replicate m CHR ''n'' @ replicate m CHR ''n'' @ ''ny'') []
     = Some (Inr (counted m, [], []))"
proof -
  let ?g = "single\<lparr>flowStartedCount := flowStartedCount single + 1\<rparr>"
  have "steps ?g = [1]" by (simp add: single_def addStep_def Flow_new_def)
  from refusals_then_skip [OF this, of m] show ?thesis
    by (simp add: run_def counted_def set_entry_def single_def addStep_def Flow_new_def
          touch_def entry_def StepAnalytics_default_def)
qed

lemma reachable_counted: "reachable (counted m)"
proof -
  have "reachable single"
    unfolding single_def by (intro reachable.intros)
  then show ?thesis using run_single_counted by (rule reachable_run)
qed

lemma reachable_at_INT_MAX: "reachable at_INT_MAX"
  unfolding at_INT_MAX_def by (rule reachable_counted)

text \<open>
  Claim C2, as the code has it. For a flow \<open>f\<close> the program has built:
  \<open>addStep\<close> leaves the counters of every step as they are. When \<open>run\<close> returns
  and no counter has passed \<open>INT_MAX\<close>, every counter stored before and after
  the run is the count; the \<open>startedCount\<close> of the step at every position has
  grown by at least 1, its \<open>completedCount\<close> is at most its \<open>startedCount\<close>, and
  none of the four counters of any step has decreased.
\<close>

theorem run_step_counters:
  assumes "reachable f"
  shows "(\<forall>q p. entry (analytics (addStep f q)) p = entry (analytics f) p) \<and>
    (\<forall>inp outs f' inp' outs'.
       run f inp outs = Some (Inr (f', inp', outs')) \<and>
       flowStartedCount f' \<le> INT_MAX \<and>
       (\<forall>p. startedCount (entry (analytics f') p) \<le> INT_MAX \<and>
            skippedCount (entry (analytics f') p) \<le> INT_MAX \<and>
            errorCount (entry (analytics f') p) \<le> INT_MAX) \<longrightarrow>
       (\<forall>p. int32 (startedCount (entry (analytics f) p)) = startedCount (entry (analytics f) p) \<and>
            int32 (completedCount (entry (analytics f) p)) = completedCount (entry (analytics f) p) \<and>
            int32 (skippedCount (entry (analytics f) p)) = skippedCount (entry (analytics f) p) \<and>
            int32 (errorCount (entry (analytics f) p)) = errorCount (entry (analytics f) p) \<and>
            int32 (startedCount (entry (analytics f') p)) = startedCount (entry (analytics f') p) \<and>
            int32 (completedCount (entry (analytics f') p)) = completedCount (entry (analytics f') p) \<and>
            int32 (skippedCount (entry (analytics f') p)) = skippedCount (entry (analytics f') p) \<and>
            int32 (errorCount (entry (analytics f') p)) = errorCount (entry (analytics f') p)) \<and>
       (\<forall>i<length (steps f).
          startedCount (entry (analytics f) (steps f ! i)) + 1
            \<le> startedCount (entry (analytics f') (steps f ! i)) \<and>
          completedCount (entry (analytics f') (steps f ! i))
            \<le> startedCount (entry (analytics f') (steps f ! i))) \<and>
       (\<forall>p. startedCount (entry (analytics f) p) \<le> startedCount (entry (analytics f') p) \<and>
            completedCount (entry (analytics f) p) \<le> completedCount (entry (analytics f') p) \<and>
            skippedCount (entry (analytics f) p) \<le> skippedCount (entry (analytics f') p) \<and>
            errorCount (entry (analytics f) p) \<le> errorCount (entry (analytics f') p)))"
proof (intro conjI allI impI)
  fix q p
  show "entry (analytics (addStep f q)) p = entry (analytics f) p"
    by (rule addStep_entry)
next
  fix inp outs f' inp' outs'
  assume h: "run f inp outs = Some (Inr (f', inp', outs')) \<and>
       flowStartedCount f' \<le> INT_MAX \<and>
       (\<forall>p. startedCount (entry (analytics f') p) \<le> INT_MAX \<and>
            skippedCount (entry (analytics f') p) \<le> INT_MAX \<and>
            errorCount (entry (analytics f') p) \<le> INT_MAX)"
  then have ret: "run f inp outs = Some (Inr (f', inp', outs'))" by blast
  have inv: "flow_inv f" using assms by (rule reachable_inv)
  have inv': "flow_inv f'"
    using assms ret by (blast intro: reachable_inv reachable_run)
  from run_frame [OF ret] obtain m where
    m: "analytics f' = m" "\<forall>q. counts_step (entry (analytics f) q) (entry m q)"
    by auto
  have mono: "startedCount (entry (analytics f) p) \<le> startedCount (entry (analytics f') p) \<and>
            completedCount (entry (analytics f) p) \<le> completedCount (entry (analytics f') p) \<and>
            skippedCount (entry (analytics f) p) \<le> skippedCount (entry (analytics f') p) \<and>
            errorCount (entry (analytics f) p) \<le> errorCount (entry (analytics f') p)" for p
    using m by (simp add: counts_step_def)
  {
    fix p
    have lo: "0 \<le> completedCount (entry (analytics f) p)"
        "completedCount (entry (analytics f) p) \<le> startedCount (entry (analytics f) p)"
        "0 \<le> skippedCount (entry (analytics f) p)" "0 \<le> errorCount (entry (analytics f) p)"
      using inv by (simp_all add: flow_inv_def)
    have lo': "completedCount (entry (analytics f') p) \<le> startedCount (entry (analytics f') p)"
      using inv' by (simp add: flow_inv_def)
    have hi: "startedCount (entry (analytics f') p) \<le> INT_MAX"
        "skippedCount (entry (analytics f') p) \<le> INT_MAX"
        "errorCount (entry (analytics f') p) \<le> INT_MAX"
      using h by blast+
    have rng: "INT_MIN \<le> 0" by (simp add: INT_MIN_def)
    show "int32 (startedCount (entry (analytics f) p)) = startedCount (entry (analytics f) p)"
      and "int32 (completedCount (entry (analytics f) p)) = completedCount (entry (analytics f) p)"
      and "int32 (skippedCount (entry (analytics f) p)) = skippedCount (entry (analytics f) p)"
      and "int32 (errorCount (entry (analytics f) p)) = errorCount (entry (analytics f) p)"
      and "int32 (startedCount (entry (analytics f') p)) = startedCount (entry (analytics f') p)"
      and "int32 (completedCount (entry (analytics f') p)) = completedCount (entry (analytics f') p)"
      and "int32 (skippedCount (entry (analytics f') p)) = skippedCount (entry (analytics f') p)"
      and "int32 (errorCount (entry (analytics f') p)) = errorCount (entry (analytics f') p)"
      using lo lo' hi rng mono [of p] by (simp_all add: int32_in_range)
  }
  {
    fix i
    assume "i < length (steps f)"
    with run_visits_all [OF ret]
    show "startedCount (entry (analytics f) (steps f ! i)) + 1
            \<le> startedCount (entry (analytics f') (steps f ! i))"
      by blast
    show "completedCount (entry (analytics f') (steps f ! i))
            \<le> startedCount (entry (analytics f') (steps f ! i))"
      using inv' by (simp add: flow_inv_def)
  }
  fix p
  from mono [of p]
  show "startedCount (entry (analytics f) p) \<le> startedCount (entry (analytics f') p)"
    and "completedCount (entry (analytics f) p) \<le> completedCount (entry (analytics f') p)"
    and "skippedCount (entry (analytics f) p) \<le> skippedCount (entry (analytics f') p)"
    and "errorCount (entry (analytics f) p) \<le> errorCount (entry (analytics f') p)"
    by simp_all
qed

text \<open>The run of \<open>demo\<close> above, for both of its steps; its counters are far from the bound.\<close>

theorem run_step_counters_witness:
  "\<exists>f'. reachable demo \<and>
     run demo ''yynnyy'' [Completes, Throws (FlowExecutionException ''CSVInputStep''), Completes]
       = Some (Inr (f', [], [])) \<and>
     flowStartedCount f' \<le> INT_MAX \<and>
     (\<forall>p. startedCount (entry (analytics f') p) \<le> INT_MAX \<and>
          skippedCount (entry (analytics f') p) \<le> INT_MAX \<and>
          errorCount (entry (analytics f') p) \<le> INT_MAX) \<and>
     steps demo = [1, 2] \<and>
     startedCount (entry (analytics demo) 1) + 1 \<le> startedCount (entry (analytics f') 1) \<and>
     startedCount (entry (analytics demo) 2) + 1 \<le> startedCount (entry (analytics f') 2) \<and>
     completedCount (entry (analytics f') 1) \<le> startedCount (entry (analytics f') 1) \<and>
     completedCount (entry (analytics f') 2) \<le> startedCount (entry (analytics f') 2) \<and>
     errorCount (entry (analytics demo) 2) \<le> errorCount (entry (analytics f') 2) \<and>
     int32 (startedCount (entry (analytics f') 2)) = startedCount (entry (analytics f') 2)"
proof -
  have "\<exists>f'. run demo ''yynnyy'' [Completes, Throws (FlowExecutionException ''CSVInputStep''), Completes]
           = Some (Inr (f', [], [])) \<and>
         flowStartedCount f' \<le> INT_MAX \<and>
         (\<forall>p. startedCount (entry (analytics f') p) \<le> INT_MAX \<and>
              skippedCount (entry (analytics f') p) \<le> INT_MAX \<and>
              errorCount (entry (analytics f') p) \<le> INT_MAX)"
    by (simp add: eval_defs INT_MAX_def)
  then obtain f' where
    r: "run demo ''yynnyy'' [Completes, Throws (FlowExecutionException ''CSVInputStep''), Completes]
           = Some (Inr (f', [], []))" and
    b: "flowStartedCount f' \<le> INT_MAX"
       "\<forall>p. startedCount (entry (analytics f') p) \<le> INT_MAX \<and>
          skippedCount (entry (analytics f') p) \<le> INT_MAX \<and>
          errorCount (entry (analytics f') p) \<le> INT_MAX"
    by blast
  have st: "steps demo = [1, 2]"
    by (simp add: demo_def addStep_def Flow_new_def)
  from run_step_counters [OF reachable_demo] r b
  have all: "(\<forall>i<length (steps demo).
          startedCount (entry (analytics demo) (steps demo ! i)) + 1
            \<le> startedCount (entry (analytics f') (steps demo ! i)) \<and>
          completedCount (entry (analytics f') (steps demo ! i))
            \<le> startedCount (entry (analytics f') (steps demo ! i)))"
    and mono: "errorCount (entry (analytics demo) 2) \<le> errorCount (entry (analytics f') 2)"
    and stored: "int32 (startedCount (entry (analytics f') 2)) = startedCount (entry (analytics f') 2)"
    by blast+
  from all [rule_format, of 0] all [rule_format, of 1] st mono stored r b reachable_demo
  show ?thesis by (intro exI [of _ f']) simp
qed

text \<open>
  Claim C2 as stated fails where an \<open>int\<close> ends. The flow \<open>at_INT_MAX\<close> is one
  the program builds, its step has been started \<open>INT_MAX\<close> times; in one more
  run, which skips the step, the stored \<open>startedCount\<close> goes from \<open>2147483647\<close> to
  \<open>-2147483648\<close>: it has decreased, and the \<open>completedCount\<close>, 0, is above it.
\<close>

theorem counter_overflows_at_INT_MAX:
  "reachable at_INT_MAX \<and>
   run at_INT_MAX ''ny'' [] = Some (Inr (past_INT_MAX, [], [])) \<and>
   startedCount (entry (analytics at_INT_MAX) 1) = INT_MAX \<and>
   int32 (startedCount (entry (analytics at_INT_MAX) 1)) = 2147483647 \<and>
   int32 (startedCount (entry (analytics past_INT_MAX) 1)) = - 2147483648 \<and>
   int32 (completedCount (entry (analytics past_INT_MAX) 1)) = 0"
proof -
  have "run at_INT_MAX ''ny'' [] = Some (Inr (past_INT_MAX, [], []))"
    by (simp add: at_INT_MAX_def counted_def past_INT_MAX_def run_def for_loop.simps loop_body_def
          inc_started_def inc_skipped_def entry_def)
  moreover have "startedCount (entry (analytics at_INT_MAX) 1) = INT_MAX"
    "int32 (startedCount (entry (analytics at_INT_MAX) 1)) = 2147483647"
    by (simp_all add: at_INT_MAX_def counted_def entry_def INT_MAX_def int32_def)
  moreover have "int32 (startedCount (entry (analytics past_INT_MAX) 1)) = - 2147483648"
    "int32 (completedCount (entry (analytics past_INT_MAX) 1)) = 0"
    by (simp_all add: past_INT_MAX_def entry_def int32_def)
  ultimately show ?thesis using reachable_at_INT_MAX by simp
qed

subsection \<open>What a run leaves alone\<close>

text \<open>
  Claim C10. When \<open>run\<close> returns on a flow the program has built, the new flow
  is the old one with another map of entries and the two flow counters
  incremented, and the map has the same keys: the name, the timestamp, the
  sequence of steps (so its length, order and members) and the set of steps
  that have an entry are unchanged, as is \<open>totalErrorsAcrossFlows\<close>.
\<close>

theorem run_frame_only_analytics:
  assumes "reachable f" and "run f inp outs = Some (Inr (f', inp', outs'))"
  shows "(\<exists>m. f' = f\<lparr>analytics := m, flowStartedCount := flowStartedCount f + 1,
                     flowCompletedCount := flowCompletedCount f + 1\<rparr> \<and>
              dom m = dom (analytics f)) \<and>
         name f' = name f \<and> timestamp f' = timestamp f \<and> steps f' = steps f \<and>
         length (steps f') = length (steps f) \<and>
         dom (analytics f') = dom (analytics f) \<and>
         totalErrorsAcrossFlows f' = totalErrorsAcrossFlows f"
proof -
  from run_frame [OF assms(2)] obtain m where
    m: "f' = f\<lparr>analytics := m, flowStartedCount := flowStartedCount f + 1,
                     flowCompletedCount := flowCompletedCount f + 1\<rparr>"
       "dom (analytics f) \<subseteq> dom m" "dom m \<subseteq> dom (analytics f) \<union> set (steps f)"
    by blast
  have "dom (analytics f) = set (steps f)"
    using reachable_inv [OF assms(1)] by (simp add: flow_inv_def)
  with m(2,3) have dom: "dom m = dom (analytics f)" by auto
  have "\<exists>m. f' = f\<lparr>analytics := m, flowStartedCount := flowStartedCount f + 1,
                     flowCompletedCount := flowCompletedCount f + 1\<rparr> \<and>
              dom m = dom (analytics f)"
    using m(1) dom by blast
  moreover have "name f' = name f" "timestamp f' = timestamp f" "steps f' = steps f"
    "totalErrorsAcrossFlows f' = totalErrorsAcrossFlows f" "analytics f' = m"
    using m(1) by simp_all
  ultimately show ?thesis using dom by simp
qed

text \<open>The same run of \<open>demo\<close>: name, timestamp, steps and keys are those of \<open>demo\<close>.\<close>

theorem run_frame_only_analytics_witness:
  "\<exists>f'. reachable demo \<and>
     run demo ''yynnyy'' [Completes, Throws (FlowExecutionException ''CSVInputStep''), Completes]
       = Some (Inr (f', [], [])) \<and>
     name f' = ''demo'' \<and> timestamp f' = 0 \<and> steps f' = [1, 2] \<and> dom (analytics f') = {1, 2}"
proof -
  have "\<exists>f'. run demo ''yynnyy'' [Completes, Throws (FlowExecutionException ''CSVInputStep''), Completes]
           = Some (Inr (f', [], []))"
    by (simp add: eval_defs)
  then obtain f' where
    r: "run demo ''yynnyy'' [Completes, Throws (FlowExecutionException ''CSVInputStep''), Completes]
           = Some (Inr (f', [], []))" ..
  have "name demo = ''demo''" "timestamp demo = 0" "steps demo = [1, 2]" "dom (analytics demo) = {1, 2}"
    by (auto simp: demo_def addStep_def Flow_new_def)
  with run_frame_only_analytics [OF reachable_demo r] r reachable_demo
  show ?thesis by (intro exI [of _ f']) simp
qed

subsection \<open>The registry\<close>

lemma find_if_le: "find_if P xs \<le> length xs"
  by (induction xs) auto

lemma find_if_end: "find_if P xs = length xs \<longleftrightarrow> (\<forall>x\<in>set xs. \<not> P x)"
  using find_if_le [of P] by (induction xs) (auto simp: Suc_le_eq)

lemma find_if_split:
  "\<exists>x\<in>set xs. P x \<Longrightarrow>
   \<exists>pre x post. xs = pre @ x # post \<and> P x \<and> (\<forall>y\<in>set pre. \<not> P y) \<and> find_if P xs = length pre"
proof (induction xs)
  case Nil
  then show ?case by simp
next
  case (Cons a xs)
  show ?case
  proof (cases "P a")
    case True
    then have "a # xs = [] @ a # xs \<and> P a \<and> (\<forall>y\<in>set []. \<not> P y) \<and> find_if P (a # xs) = length []"
      by simp
    then show ?thesis by blast
  next
    case False
    with Cons.prems have "\<exists>x\<in>set xs. P x" by simp
    from Cons.IH [OF this] obtain pre x post where
      "xs = pre @ x # post" "P x" "\<forall>y\<in>set pre. \<not> P y" "find_if P xs = length pre"
      by blast
    with False have "a # xs = (a # pre) @ x # post \<and> P x \<and> (\<forall>y\<in>set (a # pre). \<not> P y) \<and>
        find_if P (a # xs) = length (a # pre)"
      by simp
    then show ?thesis by blast
  qed
qed

lemma erase_middle: "erase (pre @ x # post) (length pre) = pre @ post"
  by (simp add: erase_def)

text \<open>
  Claim C9. For every system and every name \<open>n\<close>. When no flow has the name,
  \<open>deleteFlow\<close> throws \<open>FlowNotFoundException n\<close> and the system, its flows and the
  names \<open>printFlows\<close> lists are unchanged. When a flow has the name, the call
  returns and removes exactly one flow, the first of that name, keeping the
  others in their order; when the names are distinct, these others are all the
  flows of another name, so the name is gone from the list.
\<close>

theorem deleteFlow_removes_or_fails:
  "((\<forall>fl\<in>set (flows sys). getName fl \<noteq> n) \<longrightarrow>
      deleteFlow sys n = (Inl (FlowNotFoundException n), sys) \<and>
      flows (snd (deleteFlow sys n)) = flows sys \<and>
      printFlows (snd (deleteFlow sys n)) = printFlows sys) \<and>
   ((\<exists>fl\<in>set (flows sys). getName fl = n) \<longrightarrow>
      (\<exists>pre fl post. flows sys = pre @ fl # post \<and> getName fl = n \<and>
         (\<forall>g\<in>set pre. getName g \<noteq> n) \<and>
         deleteFlow sys n = (Inr (), sys\<lparr>flows := pre @ post\<rparr>)) \<and>
      (distinct (printFlows sys) \<longrightarrow>
         flows (snd (deleteFlow sys n)) = filter (\<lambda>g. getName g \<noteq> n) (flows sys) \<and>
         n \<notin> set (printFlows (snd (deleteFlow sys n)))))"
proof (intro conjI impI)
  assume "\<forall>fl\<in>set (flows sys). getName fl \<noteq> n"
  then have "find_if (\<lambda>flow. getName flow = n) (flows sys) = length (flows sys)"
    by (simp add: find_if_end)
  then show "deleteFlow sys n = (Inl (FlowNotFoundException n), sys)"
    and "flows (snd (deleteFlow sys n)) = flows sys"
    and "printFlows (snd (deleteFlow sys n)) = printFlows sys"
    by (simp_all add: deleteFlow_def)
next
  assume ex: "\<exists>fl\<in>set (flows sys). getName fl = n"
  from find_if_split [of "flows sys" "\<lambda>flow. getName flow = n", OF ex]
  obtain pre fl post where
    sp: "flows sys = pre @ fl # post" "getName fl = n" "\<forall>g\<in>set pre. getName g \<noteq> n"
        "find_if (\<lambda>flow. getName flow = n) (flows sys) = length pre"
    by blast
  then have del: "deleteFlow sys n = (Inr (), sys\<lparr>flows := pre @ post\<rparr>)"
    by (simp add: deleteFlow_def erase_middle)
  with sp show "\<exists>pre fl post. flows sys = pre @ fl # post \<and> getName fl = n \<and>
         (\<forall>g\<in>set pre. getName g \<noteq> n) \<and>
         deleteFlow sys n = (Inr (), sys\<lparr>flows := pre @ post\<rparr>)"
    by blast
  assume "distinct (printFlows sys)"
  with sp have "n \<notin> getName ` set post"
    by (simp add: printFlows_def)
  then have post: "\<forall>g\<in>set post. getName g \<noteq> n"
    by blast
  with sp del show "flows (snd (deleteFlow sys n)) = filter (\<lambda>g. getName g \<noteq> n) (flows sys)"
    and "n \<notin> set (printFlows (snd (deleteFlow sys n)))"
    by (auto simp: printFlows_def)
qed

text \<open>Deleting an absent and a present name from \<open>registry\<close>.\<close>

theorem deleteFlow_removes_or_fails_witness:
  "printFlows registry = [''first'', ''second''] \<and>
   deleteFlow registry ''third'' = (Inl (FlowNotFoundException ''third''), registry) \<and>
   printFlows (snd (deleteFlow registry ''third'')) = [''first'', ''second''] \<and>
   fst (deleteFlow registry ''first'') = Inr () \<and>
   printFlows (snd (deleteFlow registry ''first'')) = [''second'']"
proof -
  have names: "printFlows registry = [''first'', ''second'']"
    by (simp add: registry_def createFlow_def printFlows_def getName_def Flow_new_def)
  have absent: "\<forall>fl\<in>set (flows registry). getName fl \<noteq> ''third''"
    by (simp add: registry_def createFlow_def getName_def Flow_new_def)
  have present: "\<exists>fl\<in>set (flows registry). getName fl = ''first''"
    by (simp add: registry_def createFlow_def getName_def Flow_new_def)
  have dist: "distinct (printFlows registry)"
    by (simp add: names)
  from deleteFlow_removes_or_fails [of registry "''third''"] absent
  have a: "deleteFlow registry ''third'' = (Inl (FlowNotFoundException ''third''), registry)"
    "printFlows (snd (deleteFlow registry ''third'')) = printFlows registry"
    by blast+
  from deleteFlow_removes_or_fails [of registry "''first''"] present dist
  have b: "flows (snd (deleteFlow registry ''first''))
             = filter (\<lambda>g. getName g \<noteq> ''first'') (flows registry)"
    and c: "\<exists>pre fl post. deleteFlow registry ''first'' = (Inr (), registry\<lparr>flows := pre @ post\<rparr>)"
    by blast+
  from b have "printFlows (snd (deleteFlow registry ''first'')) = [''second'']"
    by (simp add: printFlows_def registry_def createFlow_def getName_def Flow_new_def)
  moreover from c have "fst (deleteFlow registry ''first'') = Inr ()" by auto
  ultimately show ?thesis using names a by simp
qed

subsection \<open>The average of the report\<close>

text \<open>
  No statement of the file assigns to \<open>totalErrorsAcrossFlows\<close>: it is 0 in
  every flow the program builds, and the average of the report is 0 whenever
  it is defined.
\<close>

lemma reachable_total_errors: "reachable f \<Longrightarrow> totalErrorsAcrossFlows f = 0"
  by (drule reachable_inv) (simp add: flow_inv_def)

lemma reachable_avg:
  "reachable f \<Longrightarrow> avgErrorsPerFlow f = (if flowCompletedCount f > 0 then Some 0 else None)"
  by (simp add: avgErrorsPerFlow_def reachable_total_errors)

text \<open>
  Claim C4, evaluated. Two completed runs of \<open>single\<close>, the first with three
  failing calls of \<open>execute\<close>, the second with one: the step has counted four
  errors, two runs have completed, and the average of the report is 0, not
  \<open>(3 + 1) / 2 = 2\<close>.
\<close>

theorem avgErrorsPerFlow_two_runs:
  "\<exists>f1 f2.
     run single ''yy'' [Throws (FlowExecutionException ''CSVInputStep''),
                       Throws (FlowExecutionException ''CSVInputStep''),
                       Throws (FlowExecutionException ''CSVInputStep''), Completes]
       = Some (Inr (f1, [], [])) \<and>
     run f1 ''yy'' [Throws (FlowExecutionException ''CSVInputStep''), Completes]
       = Some (Inr (f2, [], [])) \<and>
     errorCount (entry (analytics f1) 1) = 3 \<and>
     errorCount (entry (analytics f2) 1) = 4 \<and>
     flowCompletedCount f2 = 2 \<and>
     avgErrorsPerFlow f2 = Some 0"
  by (simp add: eval_defs single_def avgErrorsPerFlow_def)

subsection \<open>One step of a run\<close>

text \<open>
  The index of the loop only moves forward: after the body it is \<open>i\<close> or
  \<open>i - 1\<close>, and the loop adds 1. The steps before the index are not touched
  again, and the steps from the index on have only been started.
\<close>

lemma unat_succ_in_range:
  fixes i :: size_t
  assumes "unat i < n" and "n < 2 ^ 64"
  shows "unat (i + 1) = unat i + 1"
proof -
  have "unat i + 1 < 2 ^ 64" using assms by simp
  then show ?thesis by (simp add: unat_word_ariths)
qed

lemma word_pred_succ: "(i - 1) + 1 = (i :: size_t)"
  by simp

lemma loop_body_next_index:
  assumes "loop_body f i inp outs = Some (Inr (f', i', inp', outs'))"
    and "unat i < length (steps f)" and "length (steps f) < 2 ^ 64"
  shows "unat (i' + 1) = unat i \<or> unat (i' + 1) = unat i + 1"
proof -
  from loop_body_effect [OF assms(1)] have "i' = i \<or> i' = i - 1" by blast
  then show ?thesis
  proof
    assume "i' = i"
    with unat_succ_in_range [OF assms(2,3)] show ?thesis by simp
  next
    assume "i' = i - 1"
    then show ?thesis by simp
  qed
qed

lemma for_loop_untouched:
  "for_loop f i inp outs = Some (Inr (f', inp', outs')) \<Longrightarrow> length (steps f) < 2 ^ 64 \<Longrightarrow>
   q \<notin> set (drop (unat i) (steps f)) \<Longrightarrow> entry (analytics f') q = entry (analytics f) q"
proof (induction f i inp outs rule: for_loop.induct)
  case (1 f i inp outs)
  show ?case
  proof (cases "unat i < length (steps f)")
    case False
    with "1.prems" show ?thesis by (simp add: for_loop.simps)
  next
    case True
    with "1.prems" obtain f1 i1 inp1 outs1 where
      body: "loop_body f i inp outs = Some (Inr (f1, i1, inp1, outs1))" and
      rest: "for_loop f1 (i1 + 1) inp1 outs1 = Some (Inr (f', inp', outs'))"
      by (subst (asm) for_loop.simps) (auto split: option.splits sum.splits)
    let ?p = "steps f ! unat i"
    from loop_body_effect [OF body] obtain a where a: "f1 = set_entry f ?p a" by blast
    have "?p \<in> set (drop (unat i) (steps f))"
      using True by (metis Cons_nth_drop_Suc list.set_intros(1))
    with "1.prems"(3) have "q \<noteq> ?p" by blast
    with a have same1: "entry (analytics f1) q = entry (analytics f) q" by simp
    have steps1: "steps f1 = steps f" using a by simp
    from loop_body_next_index [OF body True "1.prems"(2)]
    have "unat i \<le> unat (i1 + 1)" by auto
    then have "set (drop (unat (i1 + 1)) (steps f)) \<subseteq> set (drop (unat i) (steps f))"
      by (rule set_drop_subset_set_drop)
    with "1.prems"(3) steps1 have "q \<notin> set (drop (unat (i1 + 1)) (steps f1))" by auto
    from "1.IH" [OF True body refl refl refl refl rest _ this] "1.prems"(2) steps1 same1
    show ?thesis by simp
  qed
qed

lemma visits_pending:
  "(g, j, inp1, outs1) \<in> set (visits f i inp outs) \<Longrightarrow> length (steps f) < 2 ^ 64 \<Longrightarrow>
   distinct (steps f) \<Longrightarrow>
   unat i \<le> unat j \<and>
   (\<forall>k. unat j \<le> k \<and> k < length (steps f) \<longrightarrow>
      completedCount (entry (analytics g) (steps f ! k)) = completedCount (entry (analytics f) (steps f ! k)) \<and>
      skippedCount (entry (analytics g) (steps f ! k)) = skippedCount (entry (analytics f) (steps f ! k)) \<and>
      errorCount (entry (analytics g) (steps f ! k)) = errorCount (entry (analytics f) (steps f ! k)))"
proof (induction f i inp outs rule: visits.induct)
  case (1 f i inp outs)
  from "1.prems"(1) have inr: "unat i < length (steps f)"
    by (subst (asm) visits.simps) (auto split: if_splits)
  show ?case
  proof (cases "(g, j, inp1, outs1) = (f, i, inp, outs)")
    case True
    then show ?thesis by simp
  next
    case False
    have "visits f i inp outs = (f, i, inp, outs) #
        (case loop_body f i inp outs of
           Some (Inr (f', i', inp', outs')) \<Rightarrow> visits f' (i' + 1) inp' outs'
         | _ \<Rightarrow> [])"
      using inr by (subst visits.simps) simp
    with "1.prems"(1) False have tail: "(g, j, inp1, outs1) \<in> set
        (case loop_body f i inp outs of
           Some (Inr (f', i', inp', outs')) \<Rightarrow> visits f' (i' + 1) inp' outs'
         | _ \<Rightarrow> [])"
      by (simp only: set_simps insert_iff) blast
    obtain f1 i1 inp2 outs2 where
      body: "loop_body f i inp outs = Some (Inr (f1, i1, inp2, outs2))" and
      mem: "(g, j, inp1, outs1) \<in> set (visits f1 (i1 + 1) inp2 outs2)"
    proof (cases "loop_body f i inp outs")
      case None
      with tail show ?thesis by simp
    next
      case (Some r)
      show ?thesis
      proof (cases r)
        case (Inl ex)
        with Some tail show ?thesis by simp
      next
        case (Inr t)
        obtain f1 i1 inp2 outs2 where "t = (f1, i1, inp2, outs2)" by (cases t)
        with Some Inr tail that show ?thesis by simp
      qed
    qed
    let ?p = "steps f ! unat i"
    from loop_body_effect [OF body] obtain a where
      a: "f1 = set_entry f ?p a"
         "i1 = i \<and> completedCount a + skippedCount a =
                completedCount (entry (analytics f) ?p) + skippedCount (entry (analytics f) ?p) + 1
          \<or> i1 = i - 1"
      by blast
    have steps1: "steps f1 = steps f" using a by simp
    from "1.IH" [OF inr body refl refl refl refl mem] "1.prems"(2,3) steps1
    have ih: "unat (i1 + 1) \<le> unat j"
      "\<forall>k. unat j \<le> k \<and> k < length (steps f) \<longrightarrow>
      completedCount (entry (analytics g) (steps f ! k)) = completedCount (entry (analytics f1) (steps f ! k)) \<and>
      skippedCount (entry (analytics g) (steps f ! k)) = skippedCount (entry (analytics f1) (steps f ! k)) \<and>
      errorCount (entry (analytics g) (steps f ! k)) = errorCount (entry (analytics f1) (steps f ! k))"
      by simp_all
    from loop_body_next_index [OF body inr "1.prems"(2)] ih(1)
    have le: "unat i \<le> unat j" by auto
    have "completedCount (entry (analytics f1) (steps f ! k)) = completedCount (entry (analytics f) (steps f ! k)) \<and>
      skippedCount (entry (analytics f1) (steps f ! k)) = skippedCount (entry (analytics f) (steps f ! k)) \<and>
      errorCount (entry (analytics f1) (steps f ! k)) = errorCount (entry (analytics f) (steps f ! k))"
      if k: "unat j \<le> k" "k < length (steps f)" for k
    proof (cases "k = unat i")
      case True
      with k ih(1) have "unat (i1 + 1) \<le> unat i" by simp
      with a(2) unat_succ_in_range [OF inr "1.prems"(2)] have i1: "i1 = i - 1" by auto
      with body have "f1 = inc_started f ?p"
        by (cases inp; cases "tl inp")
           (auto simp: loop_body_def Let_def split: if_splits option.splits sum.splits)
      then show ?thesis using True by (simp add: inc_as_set_entry)
    next
      case False
      with k inr "1.prems"(3) have "steps f ! k \<noteq> ?p"
        by (simp add: nth_eq_iff_index_eq)
      with a(1) show ?thesis by simp
    qed
    with ih(2) le show ?thesis by simp
  qed
qed

lemma retry_twice_eval:
  assumes "c1 = CHR ''y'' \<or> c1 = CHR ''Y''" and "c2 = CHR ''y'' \<or> c2 = CHR ''Y''"
  shows "loop_body g i (c1 # c2 # rest)
           (Throws (FlowExecutionException e1) # Throws (FlowExecutionException e2) # Completes # outs2)
         = Some (Inr (inc_completed (inc_error (inc_error (inc_started g (steps g ! unat i))
              (steps g ! unat i)) (steps g ! unat i)) (steps g ! unat i), i, rest, outs2))"
  using assms by (simp add: loop_body_def Let_def)

lemma distinct_nth_notin_drop:
  assumes "distinct xs" and "i < length xs"
  shows "xs ! i \<notin> set (drop (Suc i) xs)"
proof -
  have "xs = take i xs @ xs ! i # drop (Suc i) xs"
    using assms(2) by (rule id_take_nth_drop)
  with assms(1) have "distinct (take i xs @ xs ! i # drop (Suc i) xs)" by simp
  then show ?thesis by simp
qed

text \<open>
  Claim C3, as the code has it. In a run that returns, of a flow whose steps
  are distinct, take any entry of the loop body (an element of \<open>run_visits\<close>) at
  which the prompter answers yes to the question whether to run the step, the
  next two calls of \<open>execute\<close> throw a \<open>FlowExecutionException\<close>, the third
  returns, and the prompter answers yes to the question whether the step is
  completed. Then this visit adds 2 to the step's \<open>errorCount\<close>, one for each
  exception, and 1 to its \<open>completedCount\<close> and to its \<open>startedCount\<close>, and
  nothing later in the run changes them. When the counters of the step were 0
  before the run, they end as \<open>errorCount = 2\<close>, \<open>completedCount = 1\<close> and
  \<open>startedCount \<ge> 1\<close>.
\<close>

theorem retry_twice_then_complete:
  assumes ret: "run f inp outs = Some (Inr (f', inp', outs'))"
    and vis: "(g, i, c1 # c2 # rest,
               Throws (FlowExecutionException e1) # Throws (FlowExecutionException e2)
                 # Completes # outs2) \<in> set (run_visits f inp outs)"
    and y1: "c1 = CHR ''y'' \<or> c1 = CHR ''Y''"
    and y2: "c2 = CHR ''y'' \<or> c2 = CHR ''Y''"
    and dist: "distinct (steps f)"
    and len: "length (steps f) < 2 ^ 64"
  shows "errorCount (entry (analytics f') (steps f ! unat i))
           = errorCount (entry (analytics g) (steps f ! unat i)) + 2 \<and>
         completedCount (entry (analytics f') (steps f ! unat i))
           = completedCount (entry (analytics g) (steps f ! unat i)) + 1 \<and>
         startedCount (entry (analytics f') (steps f ! unat i))
           = startedCount (entry (analytics g) (steps f ! unat i)) + 1 \<and>
         skippedCount (entry (analytics f') (steps f ! unat i))
           = skippedCount (entry (analytics g) (steps f ! unat i)) \<and>
         (entry (analytics f) (steps f ! unat i) = StepAnalytics_default \<longrightarrow>
            errorCount (entry (analytics f') (steps f ! unat i)) = 2 \<and>
            completedCount (entry (analytics f') (steps f ! unat i)) = 1 \<and>
            1 \<le> startedCount (entry (analytics f') (steps f ! unat i)))"
proof -
  let ?f0 = "f\<lparr>flowStartedCount := flowStartedCount f + 1\<rparr>"
  let ?p = "steps f ! unat i"
  let ?outs1 = "Throws (FlowExecutionException e1) # Throws (FlowExecutionException e2)
                 # Completes # outs2"
  from run_effect [OF ret] obtain g' where
    g': "for_loop ?f0 0 inp outs = Some (Inr (g', inp', outs'))"
        "f' = g'\<lparr>flowCompletedCount := flowCompletedCount g' + 1\<rparr>"
    by blast
  from vis have vis0: "(g, i, c1 # c2 # rest, ?outs1) \<in> set (visits ?f0 0 inp outs)"
    by (simp add: run_visits_def)
  from visits_evolves [OF vis0] have
    ev: "evolves ?f0 g" and inr: "unat i < length (steps f)" and
    same: "for_loop g i (c1 # c2 # rest) ?outs1 = for_loop ?f0 0 inp outs"
    by simp_all
  have stg: "steps g = steps f" using ev by (auto simp: evolves_def)
  let ?g2 = "inc_completed (inc_error (inc_error (inc_started g ?p) ?p) ?p) ?p"
  have body: "loop_body g i (c1 # c2 # rest) ?outs1 = Some (Inr (?g2, i, rest, outs2))"
    using retry_twice_eval [OF y1 y2, of g i rest e1 e2 outs2] stg by simp
  have "for_loop g i (c1 # c2 # rest) ?outs1 = for_loop ?g2 (i + 1) rest outs2"
    using inr stg body by (subst for_loop.simps) simp
  with same g'(1) have rest: "for_loop ?g2 (i + 1) rest outs2 = Some (Inr (g', inp', outs'))"
    by simp
  have st2: "steps ?g2 = steps f" using stg by (simp add: inc_as_set_entry)
  have "?p \<notin> set (drop (Suc (unat i)) (steps f))"
    using dist inr by (rule distinct_nth_notin_drop)
  then have "?p \<notin> set (drop (unat (i + 1)) (steps ?g2))"
    using unat_succ_in_range [OF inr len] st2 by simp
  from for_loop_untouched [OF rest _ this] len st2
  have "entry (analytics g') ?p = entry (analytics ?g2) ?p" by simp
  with g'(2) have fin: "entry (analytics f') ?p = entry (analytics ?g2) ?p" by simp
  have rel: "errorCount (entry (analytics f') ?p) = errorCount (entry (analytics g) ?p) + 2"
    "completedCount (entry (analytics f') ?p) = completedCount (entry (analytics g) ?p) + 1"
    "startedCount (entry (analytics f') ?p) = startedCount (entry (analytics g) ?p) + 1"
    "skippedCount (entry (analytics f') ?p) = skippedCount (entry (analytics g) ?p)"
    unfolding fin by (simp_all add: inc_as_set_entry)
  have abs: "errorCount (entry (analytics f') ?p) = 2 \<and>
            completedCount (entry (analytics f') ?p) = 1 \<and>
            1 \<le> startedCount (entry (analytics f') ?p)"
    if fresh: "entry (analytics f) ?p = StepAnalytics_default"
  proof -
    from visits_pending [OF vis0] len dist inr
    have "completedCount (entry (analytics g) ?p) = completedCount (entry (analytics f) ?p)"
      and "errorCount (entry (analytics g) ?p) = errorCount (entry (analytics f) ?p)"
      by simp_all
    moreover from ev have "startedCount (entry (analytics f) ?p) \<le> startedCount (entry (analytics g) ?p)"
      by (simp add: evolves_def counts_step_def)
    ultimately show ?thesis using rel fresh by (simp add: StepAnalytics_default_def)
  qed
  from rel abs show ?thesis by blast
qed

text \<open>The second step of \<open>demo\<close> fails twice, succeeds and is completed.\<close>

theorem retry_twice_then_complete_witness:
  "\<exists>f' g. run demo ''yyyy'' [Completes, Throws (FlowExecutionException ''CSVInputStep''),
                    Throws (FlowExecutionException ''CSVInputStep''), Completes]
           = Some (Inr (f', [], [])) \<and>
     (g, 1, ''yy'', [Throws (FlowExecutionException ''CSVInputStep''),
                    Throws (FlowExecutionException ''CSVInputStep''), Completes])
       \<in> set (run_visits demo ''yyyy'' [Completes, Throws (FlowExecutionException ''CSVInputStep''),
                    Throws (FlowExecutionException ''CSVInputStep''), Completes]) \<and>
     steps demo ! unat (1 :: size_t) = 2 \<and>
     errorCount (entry (analytics f') 2) = 2 \<and>
     completedCount (entry (analytics f') 2) = 1 \<and>
     1 \<le> startedCount (entry (analytics f') 2)"
proof -
  let ?T = "Throws (FlowExecutionException ''CSVInputStep'')"
  have "\<exists>f'. run demo ''yyyy'' [Completes, ?T, ?T, Completes] = Some (Inr (f', [], []))"
    by (simp add: eval_defs)
  then obtain f' where r: "run demo ''yyyy'' [Completes, ?T, ?T, Completes] = Some (Inr (f', [], []))" ..
  have "\<exists>g. (g, 1, ''yy'', [?T, ?T, Completes]) \<in> set (run_visits demo ''yyyy'' [Completes, ?T, ?T, Completes])"
    by (simp add: run_visits_def visits.simps eval_defs)
  then obtain g where v: "(g, 1, ''yy'', [?T, ?T, Completes])
       \<in> set (run_visits demo ''yyyy'' [Completes, ?T, ?T, Completes])" ..
  have st: "steps demo = [1, 2]" by (simp add: demo_def addStep_def Flow_new_def)
  have fresh: "entry (analytics demo) 2 = StepAnalytics_default"
    by (simp add: demo_def addStep_def Flow_new_def touch_def entry_def)
  from retry_twice_then_complete [OF r v] st fresh
  have "errorCount (entry (analytics f') 2) = 2 \<and>
     completedCount (entry (analytics f') 2) = 1 \<and>
     1 \<le> startedCount (entry (analytics f') 2)"
    by simp
  with r v st show ?thesis by (intro exI [of _ f'] exI [of _ g]) simp
qed

text \<open>
  Claim C3 as stated fails when a step has been added twice, which \<open>addStep\<close>
  accepts: the two positions share one entry. In the run of \<open>dup\<close> the visit at
  the first position fails twice, succeeds and is completed, the visit at the
  second position is completed too, and the step ends with
  \<open>completedCount = 2\<close>.
\<close>

theorem shared_step_completed_twice:
  "steps dup = [1, 1] \<and>
   entry (analytics dup) 1 = StepAnalytics_default \<and>
   run dup ''yyyy'' [Throws (FlowExecutionException ''CSVInputStep''),
                     Throws (FlowExecutionException ''CSVInputStep''), Completes, Completes]
     = Some (Inr (dup_done, [], [])) \<and>
   (dup\<lparr>flowStartedCount := 1\<rparr>, 0, ''yyyy'',
      [Throws (FlowExecutionException ''CSVInputStep''),
       Throws (FlowExecutionException ''CSVInputStep''), Completes, Completes])
     \<in> set (run_visits dup ''yyyy'' [Throws (FlowExecutionException ''CSVInputStep''),
                     Throws (FlowExecutionException ''CSVInputStep''), Completes, Completes]) \<and>
   errorCount (entry (analytics dup_done) 1) = 2 \<and>
   completedCount (entry (analytics dup_done) 1) = 2"
  by (simp add: dup_def dup_done_def run_visits_def visits.simps eval_defs)

text \<open>
  Claim C5, as the code has it. At any index \<open>i\<close> of the flow, the first
  included, when the prompter answers no to both questions: the body
  increments \<open>startedCount\<close> and ends with the index \<open>i - 1\<close>, computed modulo
  \<open>2^64\<close>, which the loop's \<open>++i\<close> turns into \<open>i\<close> again; at the first step the
  index is \<open>2^64 - 1\<close> in between. The next entry of the body is at the same
  index \<open>i\<close>, with the rest of the script, and when this visit ends it has
  incremented \<open>startedCount\<close> once more.
\<close>

theorem invalid_input_presents_same_step:
  assumes inr: "unat i < length (steps f)"
    and n1: "\<not> (c1 = CHR ''y'' \<or> c1 = CHR ''Y'')"
    and n2: "\<not> (c2 = CHR ''y'' \<or> c2 = CHR ''Y'')"
  shows "loop_body f i (c1 # c2 # rest) outs
           = Some (Inr (inc_started f (steps f ! unat i), i - 1, rest, outs)) \<and>
         (i - 1) + 1 = i \<and>
         (i = 0 \<longrightarrow> unat (i - 1) = 2 ^ 64 - 1) \<and>
         visits f i (c1 # c2 # rest) outs
           = (f, i, c1 # c2 # rest, outs) # visits (inc_started f (steps f ! unat i)) i rest outs \<and>
         for_loop f i (c1 # c2 # rest) outs
           = for_loop (inc_started f (steps f ! unat i)) i rest outs \<and>
         startedCount (entry (analytics (inc_started f (steps f ! unat i))) (steps f ! unat i))
           = startedCount (entry (analytics f) (steps f ! unat i)) + 1 \<and>
         (\<forall>f' i' inp' outs'.
            loop_body (inc_started f (steps f ! unat i)) i rest outs = Some (Inr (f', i', inp', outs'))
            \<longrightarrow> startedCount (entry (analytics f') (steps f ! unat i))
                  = startedCount (entry (analytics f) (steps f ! unat i)) + 2)"
proof -
  let ?p = "steps f ! unat i"
  let ?f1 = "inc_started f ?p"
  have body: "loop_body f i (c1 # c2 # rest) outs = Some (Inr (?f1, i - 1, rest, outs))"
    using n1 n2 by (simp add: loop_body_def Let_def)
  have wrap: "i = 0 \<longrightarrow> unat (i - 1) = 2 ^ 64 - 1"
    by (simp add: unsigned_minus_1_eq_mask mask_eq_exp_minus_1)
  have v: "visits f i (c1 # c2 # rest) outs
           = (f, i, c1 # c2 # rest, outs) # visits ?f1 i rest outs"
    using inr body by (subst visits.simps) simp
  have l: "for_loop f i (c1 # c2 # rest) outs = for_loop ?f1 i rest outs"
    using inr body by (subst for_loop.simps) simp
  have s1: "startedCount (entry (analytics ?f1) ?p) = startedCount (entry (analytics f) ?p) + 1"
    by (simp add: inc_as_set_entry)
  have s2: "startedCount (entry (analytics f') ?p) = startedCount (entry (analytics f) ?p) + 2"
    if "loop_body ?f1 i rest outs = Some (Inr (f', i', inp', outs'))" for f' i' inp' outs'
  proof -
    from loop_body_effect [OF that] obtain a where
      "f' = set_entry ?f1 (steps ?f1 ! unat i) a"
      "startedCount a = startedCount (entry (analytics ?f1) (steps ?f1 ! unat i)) + 1"
      by blast
    then show ?thesis by (simp add: inc_as_set_entry)
  qed
  from body wrap v l s1 s2 show ?thesis by simp
qed

text \<open>The first step of \<open>demo\<close>, with two answers that are not yes.\<close>

theorem invalid_input_presents_same_step_witness:
  "unat (0 :: size_t) < length (steps demo) \<and>
   visits demo 0 ''nnns'' [] = (demo, 0, ''nnns'', []) # visits (inc_started demo 1) 0 ''ns'' [] \<and>
   for_loop demo 0 ''nnns'' [] = for_loop (inc_started demo 1) 0 ''ns'' [] \<and>
   startedCount (entry (analytics (inc_started demo 1)) 1) = 1"
proof -
  have st: "steps demo = [1, 2]" by (simp add: demo_def addStep_def Flow_new_def)
  then have inr: "unat (0 :: size_t) < length (steps demo)" by simp
  have z: "startedCount (entry (analytics demo) 1) = 0"
    by (simp add: demo_def addStep_def Flow_new_def touch_def entry_def StepAnalytics_default_def)
  from invalid_input_presents_same_step [OF inr, of "CHR ''n''" "CHR ''n''" "''ns''" "[]"] st z inr
  show ?thesis by simp
qed

text \<open>
  Claim C5 as stated fails at the first step: the decrement is not guarded,
  and the index with which the body ends is \<open>0 - 1 = 2^64 - 1\<close>, which is not
  an index of the flow.
\<close>

theorem first_step_index_wraps:
  "loop_body demo 0 ''nn'' [] = Some (Inr (inc_started demo 1, - 1, [], [])) \<and>
   unat (- 1 :: size_t) = 18446744073709551615 \<and>
   \<not> unat (- 1 :: size_t) < length (steps demo)"
  by (simp add: loop_body_def Let_def demo_def addStep_def Flow_new_def
        unsigned_minus_1_eq_mask mask_eq_exp_minus_1)

subsection \<open>The fold of \<open>CalculusStep\<close>\<close>

text \<open>The quotient of the code is the quotient of the specification.\<close>

lemma cpp_div_spec_quotient:
  assumes "b \<noteq> 0"
  shows "cpp_div a b = spec_quotient a b"
proof -
  let ?q = "real_of_int a / real_of_int b"
  have fl: "\<lfloor>real_of_int k / real_of_int l\<rfloor> = k div l" for k l :: int
    by (rule floor_divide_of_int_eq)
  consider (pp) "0 \<le> a" "0 < b" | (np) "a < 0" "0 < b" | (pn) "0 < a" "b < 0"
    | (zn) "a = 0" "b < 0" | (nn) "a < 0" "b < 0"
    using assms by linarith
  then show ?thesis
  proof cases
    case pp
    then have "0 \<le> ?q" by simp
    moreover have "cpp_div a b = a div b"
      using pp by (cases "a = 0") (simp_all add: cpp_div_def)
    ultimately show ?thesis by (simp add: spec_quotient_def fl)
  next
    case np
    then have "?q < 0" by (simp add: divide_neg_pos)
    moreover have "\<lceil>?q\<rceil> = - ((- a) div b)"
    proof -
      have "- ?q = real_of_int (- a) / real_of_int b" by simp
      then have "\<lfloor>- ?q\<rfloor> = (- a) div b" by (simp only: fl)
      then show ?thesis by (simp add: ceiling_def)
    qed
    moreover have "cpp_div a b = - ((- a) div b)"
      using np by (simp add: cpp_div_def)
    ultimately show ?thesis by (simp add: spec_quotient_def)
  next
    case pn
    then have "?q < 0" by (simp add: divide_pos_neg)
    moreover have "\<lceil>?q\<rceil> = - (a div (- b))"
    proof -
      have "- ?q = real_of_int a / real_of_int (- b)" by simp
      then have "\<lfloor>- ?q\<rfloor> = a div (- b)" by (simp only: fl)
      then show ?thesis by (simp add: ceiling_def)
    qed
    moreover have "cpp_div a b = - (a div (- b))"
      using pn by (simp add: cpp_div_def)
    ultimately show ?thesis by (simp add: spec_quotient_def)
  next
    case zn
    then show ?thesis by (simp add: cpp_div_def spec_quotient_def)
  next
    case nn
    then have "0 \<le> ?q" by (simp add: divide_nonpos_neg)
    moreover have "cpp_div a b = (- a) div (- b)"
      using nn by (simp add: cpp_div_def)
    moreover have "(- a) div (- b) = a div b" by simp
    ultimately show ?thesis by (simp add: spec_quotient_def fl)
  qed
qed

lemma take_drop_step:
  assumes "i < m" and "m \<le> length xs"
  shows "take (m - i) (drop i xs) = xs ! i # take (m - Suc i) (drop (Suc i) xs)"
proof -
  have "drop i xs = xs ! i # drop (Suc i) xs"
    using assms by (simp add: Cons_nth_drop_Suc)
  moreover have "m - i = Suc (m - Suc i)" using assms by simp
  ultimately show ?thesis by simp
qed

lemma calculus_loop_fold_checked:
  "calculus_loop s xs opn i acc =
     fold_checked opn acc (take (min (nat s) (length xs) - i) (drop i xs))"
proof (induction s xs opn i acc rule: calculus_loop.induct)
  case (1 s xs opn i acc)
  let ?m = "min (nat s) (length xs)"
  show ?case
  proof (cases "int i < s \<and> i < length xs")
    case False
    have l: "calculus_loop s xs opn i acc = Some (CalculusResult acc)"
      by (subst calculus_loop.simps) (rule if_not_P [OF False])
    have e: "take (?m - i) (drop i xs) = []" using False by auto
    show ?thesis by (simp only: l e fold_checked.simps)
  next
    case True
    note unfold = calculus_loop.simps [of s xs opn i acc, unfolded if_P [OF True]]
    from True have "i < ?m" by (simp add: zless_nat_eq_int_zless)
    then have el: "take (?m - i) (drop i xs) = xs ! i # take (?m - Suc i) (drop (Suc i) xs)"
      by (rule take_drop_step) simp
    consider (plus) "opn = ''+''" | (minus) "opn = ''-''" | (times) "opn = ''*''"
      | (div0) "opn = ''/''" "xs ! i = 0" | (div) "opn = ''/''" "xs ! i \<noteq> 0"
      | (min) "opn = ''min''" | (max) "opn = ''max''" | (other) "\<not> supported opn"
      unfolding supported_def by blast
    then show ?thesis
    proof cases
      case plus
      with "1.IH"(1) True unfold el show ?thesis
        by (simp add: supported_def spec_operation_def)
    next
      case minus
      with "1.IH"(2) True unfold el show ?thesis
        by (simp add: supported_def spec_operation_def)
    next
      case times
      with "1.IH"(3) True unfold el show ?thesis
        by (simp add: supported_def spec_operation_def)
    next
      case div0
      with unfold el show ?thesis
        by (simp add: supported_def)
    next
      case div
      with "1.IH"(4) True unfold el show ?thesis
        by (simp add: supported_def spec_operation_def cpp_div_spec_quotient)
    next
      case min
      with "1.IH"(5) True unfold el show ?thesis
        by (simp add: supported_def spec_operation_def)
    next
      case max
      with "1.IH"(6) True unfold el show ?thesis
        by (simp add: supported_def spec_operation_def)
    next
      case other
      with unfold el show ?thesis
        by (simp add: supported_def)
    qed
  qed
qed



lemma fold_checked_zero:
  "supported opn \<Longrightarrow> opn = ''/'' \<Longrightarrow> 0 \<notin> set pre \<Longrightarrow>
   \<forall>r\<in>set (spec_partials (spec_operation opn) acc pre). in_int r \<Longrightarrow>
   fold_checked opn acc (pre @ 0 # post) = Some DivisionByZero"
  by (induction pre arbitrary: acc) auto


lemma fold_checked_overflow:
  "supported opn \<Longrightarrow> opn = ''/'' \<Longrightarrow> 0 \<notin> set pre \<Longrightarrow>
   \<exists>r\<in>set (spec_partials (spec_operation opn) acc pre). \<not> in_int r \<Longrightarrow>
   fold_checked opn acc (pre @ 0 # post) = None"
  by (induction pre arbitrary: acc) auto

lemma spec_folded_eq:
  assumes "1 \<le> s" and "2 \<le> length xs"
  shows "take (min (nat s) (length xs) - 1) (drop 1 xs) = spec_folded s xs"
proof -
  have "min (nat s) (length xs) - 1 = min (nat (s - 1)) (length xs - 1)"
    using assms by (simp add: min_def nat_diff_distrib)
  then show ?thesis by (simp add: spec_folded_def drop_Suc)
qed

lemma CalculusStep_execute_eq:
  assumes "1 \<le> s" and "2 \<le> length xs"
  shows "CalculusStep_execute s xs opn =
     (case fold_checked opn (hd xs) (spec_folded s xs) of
        None \<Rightarrow> None | Some out \<Rightarrow> Some (Completes, out))"
proof -
  have "xs ! 0 = hd xs" using assms(2) by (cases xs) simp_all
  moreover have "\<not> (s \<le> 0 \<or> length xs < 2)" using assms by simp
  ultimately show ?thesis
    using spec_folded_eq [OF assms]
    by (simp add: CalculusStep_execute_def calculus_loop_fold_checked)
qed



text \<open>Where an operation overflows there is no result.\<close>

lemma CalculusStep_overflow_undefined:
  "CalculusStep_execute 2 [2147483647, 1] ''+'' = None"
  "CalculusStep_execute 2 [65536, 65536] ''*'' = None"
  "CalculusStep_execute 2 [- 2147483648, - 1] ''/'' = None"
  "CalculusStep_execute 3 [- 2147483648, - 1, 0] ''/'' = None"
  by (simp_all add: CalculusStep_execute_def calculus_loop.simps in_int_def INT_MIN_def INT_MAX_def
        cpp_div_def)

text \<open>
  Claim C7, as the code has it. \<open>CalculusStep::execute\<close> never throws: whenever
  the call ends, it has returned. With a non-positive \<open>steps\<close> or fewer than two
  input values it prints its configuration error and returns. When the
  operation is \<open>/\<close> and the loop reaches an element that is 0, the divisions
  before it having stayed in the range of \<open>int\<close>, it prints its division error
  and returns; in neither case does it print a result. When a division before
  the 0 overflows, the call has no defined end.
\<close>

theorem CalculusStep_reports_and_returns:
  "(\<forall>r out. CalculusStep_execute s xs opn = Some (r, out) \<longrightarrow> r = Completes) \<and>
   (s \<le> 0 \<or> length xs < 2 \<longrightarrow>
      CalculusStep_execute s xs opn = Some (Completes, InvalidConfiguration)) \<and>
   (1 \<le> s \<and> 2 \<le> length xs \<and> opn = ''/'' \<and> spec_folded s xs = pre @ 0 # post \<and>
    0 \<notin> set pre \<and>
    (\<forall>r\<in>set (spec_partials (spec_operation opn) (hd xs) pre). in_int r) \<longrightarrow>
      CalculusStep_execute s xs opn = Some (Completes, DivisionByZero)) \<and>
   (1 \<le> s \<and> 2 \<le> length xs \<and> opn = ''/'' \<and> spec_folded s xs = pre @ 0 # post \<and>
    0 \<notin> set pre \<and>
    (\<exists>r\<in>set (spec_partials (spec_operation opn) (hd xs) pre).
       r < - 2147483648 \<or> 2147483647 < r) \<longrightarrow>
      CalculusStep_execute s xs opn = None)"
proof (intro conjI allI impI)
  fix r out
  assume "CalculusStep_execute s xs opn = Some (r, out)"
  then show "r = Completes"
    by (auto simp: CalculusStep_execute_def split: if_splits option.splits)
next
  assume "s \<le> 0 \<or> length xs < 2"
  then show "CalculusStep_execute s xs opn = Some (Completes, InvalidConfiguration)"
    by (auto simp: CalculusStep_execute_def)
next
  assume h: "1 \<le> s \<and> 2 \<le> length xs \<and> opn = ''/'' \<and> spec_folded s xs = pre @ 0 # post \<and>
    0 \<notin> set pre \<and>
    (\<forall>r\<in>set (spec_partials (spec_operation opn) (hd xs) pre). in_int r)"
  then have "supported opn" by (simp add: supported_def)
  with h have "fold_checked opn (hd xs) (pre @ 0 # post) = Some DivisionByZero"
    by (intro fold_checked_zero) auto
  with h show "CalculusStep_execute s xs opn = Some (Completes, DivisionByZero)"
    using CalculusStep_execute_eq [of s xs opn] by simp
next
  assume h: "1 \<le> s \<and> 2 \<le> length xs \<and> opn = ''/'' \<and> spec_folded s xs = pre @ 0 # post \<and>
    0 \<notin> set pre \<and>
    (\<exists>r\<in>set (spec_partials (spec_operation opn) (hd xs) pre).
       r < - 2147483648 \<or> 2147483647 < r)"
  then have "supported opn" by (simp add: supported_def)
  moreover have "\<exists>r\<in>set (spec_partials (spec_operation opn) (hd xs) pre). \<not> in_int r"
  proof -
    from h obtain r where
      "r \<in> set (spec_partials (spec_operation opn) (hd xs) pre)"
      "r < - 2147483648 \<or> 2147483647 < r"
      by blast
    moreover from this(2) have "\<not> in_int r"
      by (auto simp: in_int_def INT_MIN_def INT_MAX_def)
    ultimately show ?thesis by blast
  qed
  ultimately have "fold_checked opn (hd xs) (pre @ 0 # post) = None"
    using h by (intro fold_checked_overflow) auto
  with h show "CalculusStep_execute s xs opn = None"
    using CalculusStep_execute_eq [of s xs opn] by simp
qed

text \<open>
  A division by zero at the third value, two invalid configurations, and a
  zero behind \<open>INT_MIN / -1\<close>.
\<close>

theorem CalculusStep_reports_and_returns_witness:
  "CalculusStep_execute 3 [6, 3, 0, 2] ''/'' = Some (Completes, DivisionByZero) \<and>
   spec_folded 3 [6, 3, 0, 2] = [3] @ 0 # [] \<and>
   CalculusStep_execute 3 [6] ''+'' = Some (Completes, InvalidConfiguration) \<and>
   CalculusStep_execute (- 1) [6, 2] ''+'' = Some (Completes, InvalidConfiguration) \<and>
   CalculusStep_execute 3 [- 2147483648, - 1, 0] ''/'' = None"
proof -
  have f: "spec_folded 3 [6, 3, 0, 2] = [3] @ 0 # []" by (simp add: spec_folded_def)
  have f': "spec_folded 3 [- 2147483648, - 1, 0] = [- 1] @ 0 # []" by (simp add: spec_folded_def)
  have q': "spec_quotient (- 2147483648) (- 1) = 2147483648"
    by (simp add: cpp_div_spec_quotient [symmetric] cpp_div_def)
  have p': "\<exists>r\<in>set (spec_partials (spec_operation ''/'') (hd [- 2147483648, - 1, 0]) [- 1]).
       r < - 2147483648 \<or> 2147483647 < r"
    by (simp add: spec_operation_def q')
  from CalculusStep_reports_and_returns [of 3 "[- 2147483648, - 1, 0]" "''/''" "[- 1]" "[]"] f' p'
  have o: "CalculusStep_execute 3 [- 2147483648, - 1, 0] ''/'' = None"
    by (simp add: spec_operation_def q')
  have q: "spec_quotient 6 3 = 2"
    by (simp add: cpp_div_spec_quotient [symmetric] cpp_div_def)
  have p: "\<forall>r\<in>set (spec_partials (spec_operation ''/'') (hd [6, 3, 0, 2]) [3]). in_int r"
    by (simp add: spec_operation_def q in_int_def INT_MIN_def INT_MAX_def)
  from CalculusStep_reports_and_returns [of 3 "[6, 3, 0, 2]" "''/''" "[3]" "[]"] f p
  have "CalculusStep_execute 3 [6, 3, 0, 2] ''/'' = Some (Completes, DivisionByZero)" by simp
  moreover from CalculusStep_reports_and_returns [of 3 "[6]" "''+''"]
  have "CalculusStep_execute 3 [6] ''+'' = Some (Completes, InvalidConfiguration)" by simp
  moreover from CalculusStep_reports_and_returns [of "- 1" "[6, 2]" "''+''"]
  have "CalculusStep_execute (- 1) [6, 2] ''+'' = Some (Completes, InvalidConfiguration)" by simp
  ultimately show ?thesis using f o by simp
qed

text \<open>
  Claim C7 as stated fails: on a division by zero, on a single input value and
  on \<open>steps = 0\<close> the call returns, it does not throw.
\<close>

theorem CalculusStep_errors_return:
  "CalculusStep_execute 3 [6, 0, 2] ''/'' \<noteq> Some (Throws (FlowExecutionException ''CalculusStep''), DivisionByZero) \<and>
   CalculusStep_execute 3 [6, 0, 2] ''/'' = Some (Completes, DivisionByZero) \<and>
   CalculusStep_execute 3 [6] ''+'' = Some (Completes, InvalidConfiguration) \<and>
   CalculusStep_execute 0 [6, 2] ''+'' = Some (Completes, InvalidConfiguration)"
  by (simp add: CalculusStep_execute_def calculus_loop.simps)

subsection \<open>The extension checks\<close>

lemma last_index_of_None: "last_index_of c s = None \<longleftrightarrow> c \<notin> set s"
  by (induction s) (auto split: option.splits)

lemma last_index_of_Some:
  "last_index_of c s = Some k \<Longrightarrow> k < length s \<and> s ! k = c \<and> c \<notin> set (drop (Suc k) s)"
proof (induction s arbitrary: k)
  case Nil
  then show ?case by simp
next
  case (Cons x xs)
  show ?case
  proof (cases "last_index_of c xs")
    case None
    with Cons.prems have "x = c" "k = 0" by (auto split: if_splits)
    moreover from None have "c \<notin> set xs" by (simp add: last_index_of_None)
    ultimately show ?thesis by simp
  next
    case (Some j)
    with Cons.prems have "k = Suc j" by simp
    with Cons.IH [OF Some] show ?thesis by simp
  qed
qed

text \<open>What the code compares with the extension: the part after the last dot, or the whole string.\<close>

lemma substr_after_last_dot:
  assumes "length s < 2 ^ 64"
  shows "substr s (find_last_of s c + 1) =
     Inr (case last_index_of c s of None \<Rightarrow> s | Some k \<Rightarrow> drop (Suc k) s)"
proof (cases "last_index_of c s")
  case None
  then show ?thesis by (simp add: find_last_of_def npos_def substr_def)
next
  case (Some k)
  then have "k < length s" by (simp add: last_index_of_Some)
  with assms have "Suc k < 2 ^ 64" by simp
  moreover have "word_of_nat k + 1 = (word_of_nat (Suc k) :: size_t)" by simp
  ultimately have "unat (word_of_nat k + 1 :: size_t) = Suc k"
    by (simp only: unat_of_nat) simp
  with Some \<open>k < length s\<close> show ?thesis by (simp add: find_last_of_def substr_def)
qed


lemma nth_in_drop:
  assumes "n \<le> i" and "i < length xs"
  shows "xs ! i \<in> set (drop n xs)"
proof -
  have "drop n xs ! (i - n) = xs ! i" using assms by simp
  moreover have "i - n < length (drop n xs)" using assms by simp
  ultimately show ?thesis by (metis nth_mem)
qed

text \<open>
  The check of the two steps agrees with the specification's extension on
  every string that has a dot; a string without a dot passes the check when it
  is the extension itself.
\<close>

lemma code_extension_check:
  assumes "length s < 2 ^ 64" and "CHR ''.'' \<notin> set ext"
  shows "substr s (find_last_of s CHR ''.'' + 1) = Inr ext \<longleftrightarrow>
         spec_has_extension s ext \<or> (CHR ''.'' \<notin> set s \<and> s = ext)"
proof (cases "last_index_of CHR ''.'' s")
  case None
  then have nodot: "CHR ''.'' \<notin> set s" by (simp add: last_index_of_None)
  have "\<not> spec_has_extension s ext"
  proof
    assume "spec_has_extension s ext"
    then have "drop (length s - Suc (length ext)) s = CHR ''.'' # ext"
      by (simp add: spec_has_extension_def)
    then have "CHR ''.'' \<in> set (drop (length s - Suc (length ext)) s)" by simp
    then show False using nodot by (meson in_set_dropD)
  qed
  with None nodot substr_after_last_dot [OF assms(1), of "CHR ''.''"] show ?thesis by auto
next
  case (Some k)
  then have k: "k < length s" "s ! k = CHR ''.''" "CHR ''.'' \<notin> set (drop (Suc k) s)"
    by (simp_all add: last_index_of_Some)
  then have dot: "CHR ''.'' \<in> set s" by (metis nth_mem)
  have sub: "substr s (find_last_of s CHR ''.'' + 1) = Inr (drop (Suc k) s)"
    using Some substr_after_last_dot [OF assms(1), of "CHR ''.''"] by simp
  have "drop (Suc k) s = ext \<longleftrightarrow> spec_has_extension s ext"
  proof
    assume e: "drop (Suc k) s = ext"
    then have "length ext = length s - Suc k" by auto
    with k(1) have "length ext < length s" "length s - Suc (length ext) = k" by simp_all
    moreover have "drop k s = s ! k # drop (Suc k) s"
      using k(1) by (simp add: Cons_nth_drop_Suc)
    ultimately show "spec_has_extension s ext"
      using e k(2) by (simp add: spec_has_extension_def)
  next
    assume "spec_has_extension s ext"
    then have l: "length ext < length s"
      and d: "drop (length s - Suc (length ext)) s = CHR ''.'' # ext"
      by (simp_all add: spec_has_extension_def)
    let ?j = "length s - Suc (length ext)"
    have j: "?j < length s" using l by simp
    then have "drop ?j s = s ! ?j # drop (Suc ?j) s" by (simp add: Cons_nth_drop_Suc)
    with d have sj: "s ! ?j = CHR ''.''" and dj: "drop (Suc ?j) s = ext" by simp_all
    have "?j = k"
    proof (rule ccontr)
      assume "?j \<noteq> k"
      then consider "?j < k" | "k < ?j" by linarith
      then show False
      proof cases
        case 1
        then have "s ! k \<in> set (drop (Suc ?j) s)"
          using k(1) by (intro nth_in_drop) simp_all
        with dj k(2) assms(2) show False by simp
      next
        case 2
        then have "s ! ?j \<in> set (drop (Suc k) s)"
          using j by (intro nth_in_drop) simp_all
        with sj k(3) show False by simp
      qed
    qed
    with dj show "drop (Suc k) s = ext" by simp
  qed
  with sub dot show ?thesis by auto
qed

text \<open>
  Claim C8, evaluated. The input \<open>txt\<close> has no extension, yet
  \<open>TextInputStep::execute\<close> takes it for the path of a text file: it throws when
  there is no such file and prints the file's content when there is one,
  instead of printing the input. In the same way \<open>CSVInputStep::execute\<close> takes
  the path \<open>csv\<close> for a CSV file instead of reporting an invalid file type.
\<close>

theorem extension_check_without_dot:
  "TextInputStep_execute Map.empty ''txt''
     = (Throws (FlowExecutionException ''TextInputStep''), Some (UnableToOpenTextFile ''txt'')) \<and>
   TextInputStep_execute [''txt'' \<mapsto> ''secret''] ''txt''
     = (Completes, Some (TextInputFromFile ''secret'')) \<and>
   \<not> spec_has_extension ''txt'' ''txt'' \<and>
   CSVInputStep_execute [''csv'' \<mapsto> ''a,b''] ''csv'' = (Completes, Some (CSVInput ''a,b'')) \<and>
   CSVInputStep_execute Map.empty ''csv''
     = (Throws (FlowExecutionException ''CSVInputStep''), Some (UnableToOpenCSVFile ''csv'')) \<and>
   \<not> spec_has_extension ''csv'' ''csv''"
  by (simp add: TextInputStep_execute_def CSVInputStep_execute_def substr_def find_last_of_def
        npos_def spec_has_extension_def)

end
